theory Spec2Isabelle
  imports Main "HOL-Library.Extended_Nat" "HOL-Library.Multiset" "HOL-Library.Sublist"
begin

section \<open>JavaScript values and arrays\<close>

text \<open>
  A JavaScript slot that holds either a value, \<^verbatim>\<open>null\<close> or \<^verbatim>\<open>undefined\<close>.
  Vertex ids and agent ids are non-negative integers (\<^verbatim>\<open>Graph.addVertex\<close> hands out
  \<^verbatim>\<open>nextVertexId++\<close>, \<^verbatim>\<open>App.addAgent\<close> hands out \<^verbatim>\<open>agents.length\<close>).
  Strict equality \<^verbatim>\<open>===\<close> on such slots is HOL equality.
\<close>

datatype 'a js = Undefined | Null | Val 'a

type_synonym vertex = nat
type_synonym loc = "vertex js"

text \<open>Reading an array out of range gives \<^verbatim>\<open>undefined\<close>; writing out of range extends
  the array, the skipped slots reading as \<^verbatim>\<open>undefined\<close>.\<close>

definition js_get :: "'a js list \<Rightarrow> nat \<Rightarrow> 'a js" where
  "js_get xs i = (if i < length xs then xs ! i else Undefined)"

definition js_set :: "'a js list \<Rightarrow> nat \<Rightarrow> 'a js \<Rightarrow> 'a js list" where
  "js_set xs i v =
     (if i < length xs then xs[i := v]
      else xs @ replicate (i - length xs) Undefined @ [v])"

text \<open>
  \<^verbatim>\<open>Array.prototype.sort(cmp)\<close> is stable: \<^verbatim>\<open>a\<close> is moved behind \<^verbatim>\<open>b\<close> only when
  \<^verbatim>\<open>cmp(a, b) > 0\<close>, and a \<^verbatim>\<open>NaN\<close> result counts as \<^verbatim>\<open>0\<close>. The comparator is
  modelled by the sign it yields; the sort as the stable insertion sort.
\<close>

fun js_insert :: "('a \<Rightarrow> 'a \<Rightarrow> int) \<Rightarrow> 'a \<Rightarrow> 'a list \<Rightarrow> 'a list" where
  "js_insert cmp x [] = [x]"
| "js_insert cmp x (y # ys) =
     (if cmp x y \<le> 0 then x # y # ys else y # js_insert cmp x ys)"

fun js_sort :: "('a \<Rightarrow> 'a \<Rightarrow> int) \<Rightarrow> 'a list \<Rightarrow> 'a list" where
  "js_sort cmp [] = []"
| "js_sort cmp (x # xs) = js_insert cmp x (js_sort cmp xs)"

text \<open>
  Distances are JavaScript numbers that are either a hop count or \<^verbatim>\<open>Infinity\<close>:
  an \<^typ>\<open>enat\<close>. \<open>js_diff_sign x y\<close> is the sign of \<^verbatim>\<open>x - y\<close> as \<^verbatim>\<open>sort\<close> reads it:
  \<^verbatim>\<open>Infinity - Infinity\<close> is \<^verbatim>\<open>NaN\<close> and counts as \<^verbatim>\<open>0\<close>.
\<close>

definition js_diff_sign :: "enat \<Rightarrow> enat \<Rightarrow> int" where
  "js_diff_sign x y = (if x = y then 0 else if y < x then 1 else - 1)"

section \<open>Data model\<close>

text \<open>
  \<^verbatim>\<open>class Graph\<close>: the three \<^verbatim>\<open>Map\<close>s in insertion order. A vertex record is
  \<^verbatim>\<open>{id, x, y, label}\<close>, of which only the label is kept (a string); an edge is
  \<^verbatim>\<open>{id, v1, v2}\<close>; the adjacency index maps a vertex id to its neighbour \<^verbatim>\<open>Set\<close>,
  in insertion order.
\<close>

record graph =
  vertices :: "(vertex \<times> string) list"
  edges :: "(nat \<times> vertex \<times> vertex) list"
  adjacency :: "(vertex \<times> vertex list) list"

text \<open>\<^verbatim>\<open>getNeighbors(vertexId) { return this.adjacency.get(vertexId) || new Set(); }\<close>\<close>

fun getNeighbors :: "graph \<Rightarrow> loc \<Rightarrow> vertex list" where
  "getNeighbors g (Val v) = (case map_of (adjacency g) v of None \<Rightarrow> [] | Some ns \<Rightarrow> ns)"
| "getNeighbors g Null = []"
| "getNeighbors g Undefined = []"

text \<open>\<^verbatim>\<open>class Agent\<close> (the colour is presentation only).\<close>

record agent =
  agent_id :: nat
  start :: loc
  goal :: loc

text \<open>\<^verbatim>\<open>class Configuration\<close>: the \<^verbatim>\<open>locations\<close> array; \<^verbatim>\<open>get(agentId)\<close> reads it.\<close>

type_synonym configuration = "loc list"

definition cfg_get :: "configuration \<Rightarrow> nat \<Rightarrow> loc" where
  "cfg_get Q a = js_get Q a"

text \<open>
  \<^verbatim>\<open>hash()\<close> is \<^verbatim>\<open>this.locations.join(',')\<close>: the decimal numerals of the entries
  separated by commas, \<^verbatim>\<open>null\<close> and \<^verbatim>\<open>undefined\<close> printed as the empty string.
  The string is determined by, and determines, the list of its fields
  (\<open>None\<close> for an empty field), except that the empty array and the array of
  one empty field both give the empty string. The hash is modelled by that
  list of fields; \<^verbatim>\<open>equals\<close> compares hashes.
\<close>

type_synonym hash = "vertex option list"

fun hash_field :: "loc \<Rightarrow> vertex option" where
  "hash_field (Val v) = Some v"
| "hash_field Null = None"
| "hash_field Undefined = None"

definition hash :: "configuration \<Rightarrow> hash" where
  "hash Q = (let fs = map hash_field Q in if fs = [None] then [] else fs)"

definition equals :: "configuration \<Rightarrow> configuration \<Rightarrow> bool" where
  "equals Q Q' = (hash Q = hash Q')"

section \<open>Distance oracle\<close>

text \<open>
  The inner \<^verbatim>\<open>for\<close> loop of \<^verbatim>\<open>getDistance\<close>: every neighbour not yet visited is
  added to \<^verbatim>\<open>visited\<close> and pushed on the queue with \<^verbatim>\<open>dist + 1\<close>.
\<close>

fun visit_neighbors ::
  "loc list \<Rightarrow> (loc \<times> nat) list \<Rightarrow> nat \<Rightarrow> vertex list \<Rightarrow> loc list \<times> (loc \<times> nat) list" where
  "visit_neighbors visited queue d [] = (visited, queue)"
| "visit_neighbors visited queue d (n # ns) =
     (if Val n \<in> set visited then visit_neighbors visited queue d ns
      else visit_neighbors (visited @ [Val n]) (queue @ [(Val n, d + 1)]) d ns)"

definition all_locs :: "graph \<Rightarrow> loc set" where
  "all_locs g = Val ` (\<Union>(set ` snd ` set (adjacency g)))"

lemma finite_all_locs: "finite (all_locs g)"
  by (simp add: all_locs_def)

lemma getNeighbors_all_locs: "n \<in> set (getNeighbors g v) \<Longrightarrow> Val n \<in> all_locs g"
proof (cases v)
  case (Val a)
  assume n: "n \<in> set (getNeighbors g v)"
  then obtain ns where m: "map_of (adjacency g) a = Some ns" and "n \<in> set ns"
    using Val by (cases "map_of (adjacency g) a") auto
  from map_of_SomeD[OF m] \<open>n \<in> set ns\<close> show ?thesis
    unfolding all_locs_def by force
qed auto

lemma visit_neighbors_set:
  "visit_neighbors vis q d ns = (vis', q') \<Longrightarrow> set vis' = set vis \<union> Val ` set ns"
  by (induction vis q d ns rule: visit_neighbors.induct) (auto split: if_splits)

lemma visit_neighbors_same:
  "visit_neighbors vis q d ns = (vis', q') \<Longrightarrow> set vis' = set vis \<Longrightarrow> q' = q"
proof (induction vis q d ns rule: visit_neighbors.induct)
  case (2 visited queue d n ns)
  show ?case
  proof (cases "Val n \<in> set visited")
    case True
    with 2 show ?thesis by simp
  next
    case False
    with "2.prems" have "visit_neighbors (visited @ [Val n]) (queue @ [(Val n, d + 1)]) d ns = (vis', q')"
      by simp
    from visit_neighbors_set[OF this] have "Val n \<in> set vis'" by simp
    with False "2.prems"(2) show ?thesis by simp
  qed
qed simp

text \<open>The \<^verbatim>\<open>while (queue.length > 0)\<close> loop of \<^verbatim>\<open>getDistance\<close>.\<close>

function bfs :: "graph \<Rightarrow> loc \<Rightarrow> loc list \<Rightarrow> (loc \<times> nat) list \<Rightarrow> enat" where
  "bfs g to visited [] = \<infinity>"
| "bfs g to visited ((v, d) # queue) =
     (if v = to then enat d
      else case visit_neighbors visited queue d (getNeighbors g v) of
             (visited', queue') \<Rightarrow> bfs g to visited' queue')"
  by pat_completeness auto
termination
proof (relation "measures [\<lambda>(g, to, vis, q). card (all_locs g - set vis), \<lambda>(g, to, vis, q). length q]",
       goal_cases)
  case 1
  then show ?case by simp
next
  case (2 g to visited v d queue vis' q')
  then have vn: "visit_neighbors visited queue d (getNeighbors g v) = (vis', q')" by simp
  have sub: "set visited \<subseteq> set vis'" using visit_neighbors_set[OF vn] by auto
  show ?case
  proof (cases "set vis' = set visited")
    case True
    with visit_neighbors_same[OF vn] show ?thesis by simp
  next
    case False
    then obtain x where x: "x \<in> set vis'" "x \<notin> set visited" using sub by auto
    then have "x \<in> all_locs g"
      using visit_neighbors_set[OF vn] getNeighbors_all_locs by auto
    with x sub have "all_locs g - set vis' \<subset> all_locs g - set visited" by auto
    then have "card (all_locs g - set vis') < card (all_locs g - set visited)"
      by (simp add: finite_all_locs psubset_card_mono)
    then show ?thesis by simp
  qed
qed

definition getDistance :: "graph \<Rightarrow> loc \<Rightarrow> loc \<Rightarrow> enat" where
  "getDistance g from to =
     (if from = to then 0
      else if from = Null \<or> to = Null then \<infinity>
      else bfs g to [from] [(from, 0)])"

section \<open>PIBT successor generator\<close>

text \<open>
  The body of the \<^verbatim>\<open>for (const neighbor of neighbors)\<close> loop of \<^verbatim>\<open>getBestMove\<close>,
  on the pair \<^verbatim>\<open>(bestMove, bestDist)\<close>. The set \<^verbatim>\<open>occupied\<close> is the list of its
  elements in insertion order.
\<close>

definition try_neighbor :: "graph \<Rightarrow> loc \<Rightarrow> loc list \<Rightarrow> vertex \<Rightarrow> loc \<times> enat \<Rightarrow> loc \<times> enat" where
  "try_neighbor g goal' occupied neighbor best =
     (if Val neighbor \<notin> set occupied
      then (let dist = getDistance g (Val neighbor) goal'
            in if dist < snd best then (Val neighbor, dist) else best)
      else best)"

definition getBestMove :: "graph \<Rightarrow> nat \<Rightarrow> loc \<Rightarrow> loc \<Rightarrow> loc list \<Rightarrow> loc" where
  "getBestMove g agentId current goal' occupied =
     (if current = goal' \<and> current \<notin> set occupied then current
      else
        let neighbors = getNeighbors g current;
            best = (if current \<notin> set occupied
                    then (current, getDistance g current goal')
                    else (Null, \<infinity>))
        in fst (fold (try_neighbor g goal' occupied) neighbors best))"

text \<open>The constraint \<^verbatim>\<open>Map\<close> from agent id (\<^verbatim>\<open>who\<close>) to vertex (\<^verbatim>\<open>where\<close>).\<close>

type_synonym constraints = "nat js \<rightharpoonup> loc"

definition constraints_get :: "constraints \<Rightarrow> nat \<Rightarrow> loc" where
  "constraints_get K a = (case K (Val a) of None \<Rightarrow> Undefined | Some w \<Rightarrow> w)"

text \<open>
  The two placement loops of \<^verbatim>\<open>generateConfig\<close>, on the pair
  \<^verbatim>\<open>(newLocations, occupiedNext)\<close>; \<open>None\<close> is \<^verbatim>\<open>return null\<close>.
\<close>

fun place_constrained ::
  "constraints \<Rightarrow> agent list \<Rightarrow> loc list \<times> loc list \<Rightarrow> (loc list \<times> loc list) option" where
  "place_constrained K [] st = Some st"
| "place_constrained K (a # as) (newLocations, occupiedNext) =
     (let nextPos = constraints_get K (agent_id a)
      in if nextPos \<in> set occupiedNext then None
         else place_constrained K as
                (js_set newLocations (agent_id a) nextPos, occupiedNext @ [nextPos]))"

fun place_unconstrained ::
  "graph \<Rightarrow> configuration \<Rightarrow> agent list \<Rightarrow> loc list \<times> loc list \<Rightarrow> (loc list \<times> loc list) option" where
  "place_unconstrained g Q [] st = Some st"
| "place_unconstrained g Q (a # as) (newLocations, occupiedNext) =
     (let currentPos = cfg_get Q (agent_id a);
          nextPos = getBestMove g (agent_id a) currentPos (goal a) occupiedNext
      in if nextPos = Null then None
         else place_unconstrained g Q as
                (js_set newLocations (agent_id a) nextPos, occupiedNext @ [nextPos]))"

text \<open>The nested loops that look for a swap conflict.\<close>

definition swap_conflict :: "nat \<Rightarrow> configuration \<Rightarrow> loc list \<Rightarrow> bool" where
  "swap_conflict n Q newLocations =
     list_ex (\<lambda>i. list_ex (\<lambda>j. cfg_get Q i = js_get newLocations j \<and>
                                  cfg_get Q j = js_get newLocations i) [i + 1..<n]) [0..<n]"

definition generateConfig ::
  "graph \<Rightarrow> agent list \<Rightarrow> configuration \<Rightarrow> constraints \<Rightarrow> configuration option" where
  "generateConfig g agents currentConfig K =
     (let newLocations = replicate (length agents) Undefined;
          constrainedAgents = filter (\<lambda>a. K (Val (agent_id a)) \<noteq> None) agents;
          unconstrainedAgents =
            js_sort (\<lambda>a b. js_diff_sign
                       (getDistance g (cfg_get currentConfig (agent_id b)) (goal b))
                       (getDistance g (cfg_get currentConfig (agent_id a)) (goal a)))
              (filter (\<lambda>a. K (Val (agent_id a)) = None) agents)
      in case place_constrained K constrainedAgents (newLocations, []) of
           None \<Rightarrow> None
         | Some st \<Rightarrow>
             (case place_unconstrained g currentConfig unconstrainedAgents st of
                None \<Rightarrow> None
              | Some (newLocations', occupiedNext) \<Rightarrow>
                  if swap_conflict (length agents) currentConfig newLocations' then None
                  else Some newLocations'))"

section \<open>Priority orders\<close>

text \<open>\<^verbatim>\<open>getInitOrder\<close>: the agents as \<^verbatim>\<open>{id, dist}\<close>, sorted by \<^verbatim>\<open>b.dist - a.dist\<close>.\<close>

definition getInitOrder :: "graph \<Rightarrow> agent list \<Rightarrow> nat list" where
  "getInitOrder g agents =
     map fst
       (js_sort (\<lambda>a b. js_diff_sign (snd b) (snd a))
          (map (\<lambda>a. (agent_id a, getDistance g (start a) (goal a))) agents))"

text \<open>\<^verbatim>\<open>getOrder\<close>: the agents as \<^verbatim>\<open>{id, atGoal, dist}\<close>; agents at their goal go last.\<close>

definition order_cmp :: "nat \<times> bool \<times> enat \<Rightarrow> nat \<times> bool \<times> enat \<Rightarrow> int" where
  "order_cmp a b =
     (if fst (snd a) \<noteq> fst (snd b) then (if fst (snd a) then 1 else - 1)
      else js_diff_sign (snd (snd b)) (snd (snd a)))"

definition getOrder :: "graph \<Rightarrow> agent list \<Rightarrow> configuration \<Rightarrow> nat list" where
  "getOrder g agents config =
     map fst
       (js_sort order_cmp
          (map (\<lambda>a. (agent_id a, cfg_get config (agent_id a) = goal a,
                      getDistance g (cfg_get config (agent_id a)) (goal a))) agents))"

section \<open>Search state\<close>

text \<open>
  Objects that the solver mutates after they have been created, and that can be
  reached along more than one reference, live in a heap: the constraint trees
  (a root \<^verbatim>\<open>LowLevelNode\<close> with everything below it) and the \<^verbatim>\<open>tree\<close> arrays (the work
  queues). An address is an index into the heap; nothing is ever freed. A
  \<^verbatim>\<open>LowLevelNode\<close> object is named by the address of its root and the child indices
  that lead to it; its \<^verbatim>\<open>parent\<close> is the node one index shorter.
\<close>

type_synonym addr = nat
type_synonym path = "nat list"
type_synonym llref = "addr \<times> path"

text \<open>\<^verbatim>\<open>class LowLevelNode\<close>: id, who, where, children, depth, isSearched, isSelected.\<close>

datatype llnode =
  LLNode (ll_id: nat) (who: "nat js") (wher: loc) (children: "llnode list")
         (depth: nat) (isSearched: bool) (isSelected: bool)

text \<open>
  \<^verbatim>\<open>class HighLevelNode\<close>: id, config, tree, treeRoot, order, parent. Its fields are
  assigned when it is built and never again, so a node is a value; \<^verbatim>\<open>tree\<close> and
  \<^verbatim>\<open>treeRoot\<close> are addresses.
\<close>

datatype hlnode =
  HLNode (hl_id: nat) (config: configuration) (tree: addr) (treeRoot: "addr option")
         (order: "nat list") (parent: "hlnode option")

datatype phase = Init | Select | PopConstraint | ExpandTree | Generate | Check

datatype status = Running | Solved | NoSolution

text \<open>\<^verbatim>\<open>this.state\<close>. The \<^verbatim>\<open>description\<close> string is presentation only and is left out;
  \<^verbatim>\<open>explored\<close> is the \<^verbatim>\<open>Map\<close> in insertion order.\<close>

record search_state =
  open_nodes :: "hlnode list"
  explored :: "(hash \<times> hlnode) list"
  currentHighLevelNode :: "hlnode option"
  currentLowLevelNode :: "llref option"
  generatedConfig :: "configuration option"
  stepNumber :: nat
  phase :: phase
  status :: status
  solution :: "configuration list option"
  nodesGenerated :: nat
  configurationsExplored :: nat

text \<open>The entries of \<^verbatim>\<open>snapshot.nodes\<close> and the snapshot that \<^verbatim>\<open>saveHistory\<close> builds.\<close>

record node_data =
  nd_id :: nat
  nd_config :: configuration
  nd_treeRoot :: "addr option"
  nd_tree :: addr
  nd_order :: "nat list"
  nd_parentId :: "nat option"

record snapshot =
  nodes :: "(nat \<times> node_data) list"
  openIds :: "nat list"
  exploredMap :: "(hash \<times> nat) list"
  currentHighLevelNodeId :: "nat option"
  currentLowLevelNodeId :: "nat option"
  snap_stepNumber :: nat
  snap_phase :: phase
  snap_status :: status
  snap_nodesGenerated :: nat
  snap_configurationsExplored :: nat
  snap_generatedConfig :: "configuration option"
  snap_solution :: "configuration list option"

text \<open>
  A \<^verbatim>\<open>LaCAM\<close> object from \<^verbatim>\<open>initialize()\<close> on (before it \<^verbatim>\<open>this.state\<close> is \<^verbatim>\<open>null\<close>),
  together with the two module-level id counters and the heap.
\<close>

record lacam =
  graph :: graph
  agents :: "agent list"
  state :: search_state
  history :: "snapshot list"
  hlNodeIdCounter :: nat
  llNodeIdCounter :: nat
  trees :: "llnode list"
  queues :: "llref list list"

text \<open>What a call can throw: a property of \<^verbatim>\<open>null\<close> or \<^verbatim>\<open>undefined\<close> is read
  (\<open>TypeError\<close>), or, in the model only, an address or a path leads nowhere.\<close>

datatype error = TypeError | Dangling

subsection \<open>Heap access\<close>

fun subtree :: "llnode \<Rightarrow> path \<Rightarrow> llnode option" where
  "subtree n [] = Some n"
| "subtree n (i # p) =
     (if i < length (children n) then subtree (children n ! i) p else None)"

definition get_tree :: "lacam \<Rightarrow> addr \<Rightarrow> llnode option" where
  "get_tree s a = (if a < length (trees s) then Some (trees s ! a) else None)"

definition get_queue :: "lacam \<Rightarrow> addr \<Rightarrow> llref list option" where
  "get_queue s a = (if a < length (queues s) then Some (queues s ! a) else None)"

definition deref :: "lacam \<Rightarrow> llref \<Rightarrow> llnode option" where
  "deref s r = (case get_tree s (fst r) of None \<Rightarrow> None | Some rt \<Rightarrow> subtree rt (snd r))"

text \<open>\<open>update_at f n p\<close>: the tree \<open>n\<close> with \<open>f\<close> applied to the node at \<open>p\<close>.\<close>

fun update_at :: "(llnode \<Rightarrow> llnode) \<Rightarrow> llnode \<Rightarrow> path \<Rightarrow> llnode" where
  "update_at f n [] = f n"
| "update_at f (LLNode i w v cs d se sl) (k # p) =
     (if k < length cs then LLNode i w v (cs[k := update_at f (cs ! k) p]) d se sl
      else LLNode i w v cs d se sl)"

definition update_node :: "lacam \<Rightarrow> llref \<Rightarrow> (llnode \<Rightarrow> llnode) \<Rightarrow> lacam" where
  "update_node s r f =
     (if fst r < length (trees s)
      then s\<lparr>trees := (trees s)[fst r := update_at f (trees s ! fst r) (snd r)]\<rparr>
      else s)"

text \<open>
  The constructor \<^verbatim>\<open>LowLevelNode(parent = null, who = null, where = null)\<close> has default
  parameter values: an argument that is \<^verbatim>\<open>undefined\<close> is replaced by \<^verbatim>\<open>null\<close>.
\<close>

fun default_null :: "'a js \<Rightarrow> 'a js" where
  "default_null Undefined = Null"
| "default_null Null = Null"
| "default_null (Val x) = Val x"

text \<open>\<^verbatim>\<open>new LowLevelNode(null, null, null)\<close> with the id the counter gives.\<close>

definition new_root :: "nat \<Rightarrow> llnode" where
  "new_root i = LLNode i Null Null [] 0 False False"

text \<open>A JavaScript \<^verbatim>\<open>Map\<close> in insertion order: \<^verbatim>\<open>set\<close> replaces the value of a key
  that is present and appends a new key.\<close>

definition map_set :: "('k \<times> 'v) list \<Rightarrow> 'k \<Rightarrow> 'v \<Rightarrow> ('k \<times> 'v) list" where
  "map_set m k v =
     (if k \<in> fst ` set m then map (\<lambda>(k', v'). if k' = k then (k', v) else (k', v')) m
      else m @ [(k, v)])"

subsection \<open>Snapshots\<close>

text \<open>\<^verbatim>\<open>cloneLowLevelTree\<close>: a new node with the id, depth and flags of the old one and
  the clones of its children. Every clone is built by \<^verbatim>\<open>new LowLevelNode\<close>, which
  advances \<^verbatim>\<open>llNodeIdCounter\<close>.\<close>

fun cloneLowLevelTree :: "llnode \<Rightarrow> llnode" where
  "cloneLowLevelTree (LLNode i w v cs d se sl) =
     LLNode i (default_null w) (default_null v) (map cloneLowLevelTree cs) d se sl"

fun count_nodes :: "llnode \<Rightarrow> nat" where
  "count_nodes (LLNode i w v cs d se sl) = 1 + sum_list (map count_nodes cs)"

lemma count_nodes_children:
  "sum_list (map (\<lambda>i. count_nodes (children n ! i)) [0..<length (children n)]) < count_nodes n"
proof (cases n)
  case (LLNode i w v cs d se sl)
  have "map count_nodes (map ((!) cs) [0..<length cs]) = map count_nodes cs"
    by (simp only: map_nth)
  then have "map (\<lambda>i. count_nodes (cs ! i)) [0..<length cs] = map count_nodes cs"
    by (simp add: comp_def)
  with LLNode show ?thesis by simp
qed

text \<open>The breadth-first walk over a cloned tree that rebuilds the work queue:
  the nodes in the order the walk shifts them off its queue, each with its path.\<close>

definition child_entries :: "path \<times> llnode \<Rightarrow> (path \<times> llnode) list" where
  "child_entries x =
     map (\<lambda>i. (fst x @ [i], children (snd x) ! i)) [0..<length (children (snd x))]"

lemma child_entries_count:
  "sum_list (map (count_nodes \<circ> snd) (child_entries x)) < count_nodes (snd x)"
proof -
  have "sum_list (map (count_nodes \<circ> snd) (child_entries x))
        = sum_list (map (\<lambda>i. count_nodes (children (snd x) ! i)) [0..<length (children (snd x))])"
    by (simp add: child_entries_def comp_def)
  with count_nodes_children[of "snd x"] show ?thesis by simp
qed

function bfs_nodes :: "(path \<times> llnode) list \<Rightarrow> (path \<times> llnode) list" where
  "bfs_nodes q =
     (case q of [] \<Rightarrow> [] | x # queue \<Rightarrow> x # bfs_nodes (queue @ child_entries x))"
  by pat_completeness simp
termination
proof (relation "measure (\<lambda>q. sum_list (map (count_nodes \<circ> snd) q))", goal_cases)
  case 1
  then show ?case by simp
next
  case (2 q x queue)
  with child_entries_count[of x] show ?case by simp
qed

declare bfs_nodes.simps [simp del]

text \<open>The ids of the nodes a work queue holds (\<^verbatim>\<open>node.tree.some(t => t.id === n.id)\<close>).\<close>

definition queue_ids :: "lacam \<Rightarrow> llref list \<Rightarrow> nat list" where
  "queue_ids s q = List.map_filter (\<lambda>r. map_option ll_id (deref s r)) q"

text \<open>
  One round of the \<^verbatim>\<open>allNodes.forEach\<close> of \<^verbatim>\<open>cloneAllNodes\<close>: the tree of the node is
  cloned to a new address, the queue is rebuilt at a new address from the clone,
  and the node's data are returned. A \<^verbatim>\<open>treeRoot\<close> that is \<^verbatim>\<open>null\<close> (or an address
  outside the heap, which does not occur) gives no tree and an empty queue.
\<close>

definition clone_node :: "lacam \<Rightarrow> hlnode \<Rightarrow> lacam \<times> node_data" where
  "clone_node s node =
     (case (case treeRoot node of None \<Rightarrow> None | Some r \<Rightarrow> get_tree s r) of
        None \<Rightarrow>
          (s\<lparr>queues := queues s @ [[]]\<rparr>,
           \<lparr>nd_id = hl_id node, nd_config = config node, nd_treeRoot = None,
            nd_tree = length (queues s), nd_order = order node,
            nd_parentId = map_option hl_id (parent node)\<rparr>)
      | Some rt \<Rightarrow>
          let clonedTreeRoot = cloneLowLevelTree rt;
              a = length (trees s);
              ids = (case get_queue s (tree node) of None \<Rightarrow> [] | Some q \<Rightarrow> queue_ids s q);
              clonedTree = map (\<lambda>(p, n). (a, p))
                             (filter (\<lambda>(p, n). ll_id n \<in> set ids) (bfs_nodes [([], clonedTreeRoot)]))
          in (s\<lparr>trees := trees s @ [clonedTreeRoot],
                queues := queues s @ [clonedTree],
                llNodeIdCounter := llNodeIdCounter s + count_nodes rt\<rparr>,
              \<lparr>nd_id = hl_id node, nd_config = config node, nd_treeRoot = Some a,
               nd_tree = length (queues s), nd_order = order node,
               nd_parentId = map_option hl_id (parent node)\<rparr>))"

text \<open>\<^verbatim>\<open>cloneAllNodes\<close>: the nodes of Open, then those of Explored, keyed by id.\<close>

definition all_nodes :: "search_state \<Rightarrow> (nat \<times> hlnode) list" where
  "all_nodes st =
     fold (\<lambda>n m. map_set m (hl_id n) n) (open_nodes st @ map snd (explored st)) []"

definition cloneAllNodes :: "lacam \<Rightarrow> lacam \<times> (nat \<times> node_data) list" where
  "cloneAllNodes s =
     fold (\<lambda>(i, node) (s', nodesMap).
             case clone_node s' node of (s'', d) \<Rightarrow> (s'', map_set nodesMap i d))
          (all_nodes (state s)) (s, [])"

definition make_snapshot :: "lacam \<Rightarrow> (nat \<times> node_data) list \<Rightarrow> snapshot" where
  "make_snapshot s nodesMap =
     \<lparr>nodes = nodesMap,
      openIds = map hl_id (open_nodes (state s)),
      exploredMap = map (\<lambda>(h, n). (h, hl_id n)) (explored (state s)),
      currentHighLevelNodeId = map_option hl_id (currentHighLevelNode (state s)),
      currentLowLevelNodeId =
        (case currentLowLevelNode (state s) of None \<Rightarrow> None
         | Some r \<Rightarrow> map_option ll_id (deref s r)),
      snap_stepNumber = stepNumber (state s),
      snap_phase = phase (state s),
      snap_status = status (state s),
      snap_nodesGenerated = nodesGenerated (state s),
      snap_configurationsExplored = configurationsExplored (state s),
      snap_generatedConfig = generatedConfig (state s),
      snap_solution = solution (state s)\<rparr>"

definition saveHistory :: "lacam \<Rightarrow> lacam" where
  "saveHistory s =
     (case cloneAllNodes s of
        (s', nodesMap) \<Rightarrow>
          let h = history s' @ [make_snapshot s nodesMap]
          in s'\<lparr>history := (if length h > 200 then tl h else h)\<rparr>)"

text \<open>
  \<^verbatim>\<open>restoreFromSnapshot\<close>. The two passes build, for every entry of
  \<^verbatim>\<open>snapshot.nodes\<close>, a \<^verbatim>\<open>HighLevelNode\<close> whose \<^verbatim>\<open>config\<close>, \<^verbatim>\<open>treeRoot\<close>, \<^verbatim>\<open>tree\<close> and
  \<^verbatim>\<open>order\<close> are the snapshot's own objects (not copies) and whose parent is the
  node built for \<^verbatim>\<open>parentId\<close>, or \<^verbatim>\<open>null\<close>. \<open>rebuild k ns i\<close> is the node for id
  \<open>i\<close>, following at most \<open>k\<close> parent links (a snapshot has no cycle of parent ids).
\<close>

fun rebuild :: "nat \<Rightarrow> (nat \<times> node_data) list \<Rightarrow> nat \<Rightarrow> hlnode option" where
  "rebuild 0 ns i = None"
| "rebuild (Suc k) ns i =
     (case map_of ns i of
        None \<Rightarrow> None
      | Some d \<Rightarrow>
          Some (HLNode (nd_id d) (nd_config d) (nd_tree d) (nd_treeRoot d) (nd_order d)
                  (case nd_parentId d of None \<Rightarrow> None | Some p \<Rightarrow> rebuild k ns p)))"

text \<open>\<^verbatim>\<open>findLLNode\<close>: depth-first, the first node with the id.\<close>

fun findLLNode :: "nat \<Rightarrow> llnode \<Rightarrow> path option"
  and findLLNode_children :: "nat \<Rightarrow> llnode list \<Rightarrow> nat \<Rightarrow> path option" where
  "findLLNode target (LLNode i w v cs d se sl) =
     (if i = target then Some [] else findLLNode_children target cs 0)"
| "findLLNode_children target [] k = None"
| "findLLNode_children target (c # cs) k =
     (case findLLNode target c of
        Some p \<Rightarrow> Some (k # p)
      | None \<Rightarrow> findLLNode_children target cs (Suc k))"

definition restoreFromSnapshot :: "lacam \<Rightarrow> snapshot \<Rightarrow> lacam" where
  "restoreFromSnapshot s snap =
     (let nodeMap = rebuild (Suc (length (nodes snap))) (nodes snap);
          cur = (case currentHighLevelNodeId snap of None \<Rightarrow> None | Some i \<Rightarrow> nodeMap i);
          curLL =
            (case (currentLowLevelNodeId snap, cur) of
               (Some target, Some N) \<Rightarrow>
                 (case treeRoot N of
                    None \<Rightarrow> None
                  | Some a \<Rightarrow>
                      (case get_tree s a of
                         None \<Rightarrow> None
                       | Some rt \<Rightarrow> map_option (\<lambda>p. (a, p)) (findLLNode target rt)))
             | _ \<Rightarrow> None)
      in s\<lparr>state :=
             \<lparr>open_nodes = List.map_filter nodeMap (openIds snap),
              explored =
                fold (\<lambda>(h, i) m. case nodeMap i of None \<Rightarrow> m | Some n \<Rightarrow> map_set m h n)
                  (exploredMap snap) [],
              currentHighLevelNode = cur,
              currentLowLevelNode = curLL,
              generatedConfig = snap_generatedConfig snap,
              stepNumber = snap_stepNumber snap,
              phase = snap_phase snap,
              status = snap_status snap,
              solution = snap_solution snap,
              nodesGenerated = snap_nodesGenerated snap,
              configurationsExplored = snap_configurationsExplored snap\<rparr>,
           hlNodeIdCounter := hlNodeIdCounter s + length (nodes snap)\<rparr>)"

text \<open>\<^verbatim>\<open>stepBack\<close>: the returned flag and the solver afterwards.\<close>

definition stepBack :: "lacam \<Rightarrow> bool \<times> lacam" where
  "stepBack s =
     (if length (history s) > 1
      then (let h = butlast (history s)
            in (True, restoreFromSnapshot (s\<lparr>history := h\<rparr>) (last h)))
      else (False, s))"

subsection \<open>Initialisation\<close>

text \<open>
  \<^verbatim>\<open>initialize\<close> resets the counters, builds the start configuration, the root
  \<^verbatim>\<open>Cinit\<close> and the node \<^verbatim>\<open>Ninit\<close>, and saves the first snapshot. The state and
  the history are replaced, so no object of an earlier run can be reached: the
  heap starts empty.
\<close>

definition initialize :: "lacam \<Rightarrow> lacam" where
  "initialize s =
     (let startConfig = map start (agents s);
          Cinit = new_root 0;
          Ninit = HLNode 0 startConfig 0 (Some 0) (getInitOrder (graph s) (agents s)) None
      in saveHistory
           (s\<lparr>state :=
                \<lparr>open_nodes = [Ninit],
                 explored = [(hash startConfig, Ninit)],
                 currentHighLevelNode = Some Ninit,
                 currentLowLevelNode = None,
                 generatedConfig = None,
                 stepNumber = 0,
                 phase = Select,
                 status = Running,
                 solution = None,
                 nodesGenerated = 1,
                 configurationsExplored = 1\<rparr>,
              history := [],
              hlNodeIdCounter := 1,
              llNodeIdCounter := 1,
              trees := [Cinit],
              queues := [[(0, [])]]\<rparr>))"

definition reset :: "lacam \<Rightarrow> lacam" where
  "reset s = initialize s"

subsection \<open>The phases of \<^verbatim>\<open>step\<close>\<close>

text \<open>\<^verbatim>\<open>backtrack\<close>: the configurations along the parent links, the oldest first.\<close>

fun backtrack_from :: "hlnode \<Rightarrow> configuration list \<Rightarrow> configuration list" where
  "backtrack_from (HLNode i c t r ord par) path =
     (case par of None \<Rightarrow> c # path | Some p \<Rightarrow> backtrack_from p (c # path))"

definition backtrack :: "hlnode \<Rightarrow> configuration list" where
  "backtrack node = backtrack_from node []"

definition stepSelect :: "lacam \<Rightarrow> error + bool \<times> lacam" where
  "stepSelect s =
     (let st = state s in
      if open_nodes st = [] then Inr (False, s\<lparr>state := st\<lparr>status := NoSolution\<rparr>\<rparr>)
      else
        let N = last (open_nodes st);
            st1 = st\<lparr>currentHighLevelNode := Some N\<rparr>;
            goalConfig = map goal (agents s)
        in if equals (config N) goalConfig
           then Inr (False, s\<lparr>state := st1\<lparr>solution := Some (backtrack N), status := Solved\<rparr>\<rparr>)
           else (case get_queue s (tree N) of
                   None \<Rightarrow> Inl Dangling
                 | Some q \<Rightarrow>
                     if q = []
                     then Inr (True, s\<lparr>state := st1\<lparr>open_nodes := butlast (open_nodes st)\<rparr>\<rparr>)
                     else Inr (True, s\<lparr>state := st1\<lparr>phase := PopConstraint\<rparr>\<rparr>)))"

text \<open>Setting \<^verbatim>\<open>isSelected\<close> and \<^verbatim>\<open>isSearched\<close> of a node.\<close>

fun mark_popped :: "llnode \<Rightarrow> llnode" where
  "mark_popped (LLNode i w v cs d se sl) = LLNode i w v cs d True True"

definition stepPopConstraint :: "lacam \<Rightarrow> error + bool \<times> lacam" where
  "stepPopConstraint s =
     (case currentHighLevelNode (state s) of
        None \<Rightarrow> Inl TypeError
      | Some N \<Rightarrow>
          (case get_queue s (tree N) of
             None \<Rightarrow> Inl Dangling
           | Some [] \<Rightarrow> Inl TypeError
           | Some (C # rest) \<Rightarrow>
               (case deref s C of
                  None \<Rightarrow> Inl Dangling
                | Some _ \<Rightarrow>
                    let s1 = update_node (s\<lparr>queues := (queues s)[tree N := rest]\<rparr>) C mark_popped
                    in Inr (True, s1\<lparr>state := (state s1)\<lparr>currentLowLevelNode := Some C,
                                                         phase := ExpandTree\<rparr>\<rparr>))))"

text \<open>\<^verbatim>\<open>N.order[C.depth]\<close> and \<^verbatim>\<open>N.config.get(agentId)\<close>, where the index may be
  \<^verbatim>\<open>undefined\<close>.\<close>

definition order_at :: "nat list \<Rightarrow> nat \<Rightarrow> nat js" where
  "order_at ord d = js_get (map Val ord) d"

fun cfg_get_js :: "configuration \<Rightarrow> nat js \<Rightarrow> loc" where
  "cfg_get_js Q (Val a) = cfg_get Q a"
| "cfg_get_js Q Null = Undefined"
| "cfg_get_js Q Undefined = Undefined"

text \<open>Appending children to a node.\<close>

fun add_children :: "llnode list \<Rightarrow> llnode \<Rightarrow> llnode" where
  "add_children new (LLNode i w v cs d se sl) = LLNode i w v (cs @ new) d se sl"

text \<open>
  \<^verbatim>\<open>stepExpandTree\<close>. The loop over \<^verbatim>\<open>moves\<close> builds one child per move by
  \<^verbatim>\<open>new LowLevelNode(C, agentId, vertex)\<close>, with consecutive ids, pushes it on
  \<^verbatim>\<open>C.children\<close> and on \<^verbatim>\<open>N.tree\<close>; the children and the queue entries are given here
  for all moves at once.
\<close>

definition stepExpandTree :: "lacam \<Rightarrow> error + bool \<times> lacam" where
  "stepExpandTree s =
     (case currentLowLevelNode (state s) of
        None \<Rightarrow> Inl TypeError
      | Some C \<Rightarrow>
          (case deref s C of
             None \<Rightarrow> Inl Dangling
           | Some c \<Rightarrow>
               if depth c < length (agents s) then
                 (case currentHighLevelNode (state s) of
                    None \<Rightarrow> Inl TypeError
                  | Some N \<Rightarrow>
                      (case get_queue s (tree N) of
                         None \<Rightarrow> Inl Dangling
                       | Some q \<Rightarrow>
                           let agentId = order_at (order N) (depth c);
                               currentVertex = cfg_get_js (config N) agentId;
                               neighbors = getNeighbors (graph s) currentVertex;
                               moves = currentVertex # map Val neighbors;
                               new = map (\<lambda>(k, vertex).
                                            LLNode (llNodeIdCounter s + k) (default_null agentId)
                                              (default_null vertex) [] (depth c + 1) False False)
                                       (List.enumerate 0 moves);
                               refs = map (\<lambda>k. (fst C, snd C @ [length (children c) + k]))
                                        [0..<length moves];
                               s1 = update_node s C (add_children new);
                               s2 = s1\<lparr>queues := (queues s1)[tree N := q @ refs],
                                       llNodeIdCounter := llNodeIdCounter s + length moves\<rparr>
                           in Inr (True, s2\<lparr>state := (state s2)\<lparr>phase := Generate\<rparr>\<rparr>)))
               else Inr (True, s\<lparr>state := (state s)\<lparr>phase := Generate\<rparr>\<rparr>)))"

text \<open>
  \<^verbatim>\<open>getConstraints\<close>: from the node up along the parent links, until a node whose
  \<^verbatim>\<open>who\<close> is \<^verbatim>\<open>null\<close> or the parent is \<^verbatim>\<open>null\<close>; a later \<^verbatim>\<open>set\<close> replaces an earlier one.
\<close>

function constraints_up :: "llnode \<Rightarrow> path \<Rightarrow> constraints \<Rightarrow> constraints option" where
  "constraints_up rt p K =
     (case subtree rt p of
        None \<Rightarrow> None
      | Some n \<Rightarrow>
          if who n = Null then Some K
          else if p = [] then Some (K(who n \<mapsto> wher n))
          else constraints_up rt (butlast p) (K(who n \<mapsto> wher n)))"
  by pat_completeness auto
termination
  by (relation "measure (\<lambda>(rt, p, K). length p)") auto

definition getConstraints :: "lacam \<Rightarrow> llref \<Rightarrow> constraints option" where
  "getConstraints s C =
     (case get_tree s (fst C) of
        None \<Rightarrow> None
      | Some rt \<Rightarrow> constraints_up rt (snd C) Map.empty)"

definition stepGenerate :: "lacam \<Rightarrow> error + bool \<times> lacam" where
  "stepGenerate s =
     (case currentLowLevelNode (state s) of
        None \<Rightarrow> Inl TypeError
      | Some C \<Rightarrow>
          (case getConstraints s C of
             None \<Rightarrow> Inl Dangling
           | Some K \<Rightarrow>
               (case currentHighLevelNode (state s) of
                  None \<Rightarrow> Inl TypeError
                | Some N \<Rightarrow>
                    (case generateConfig (graph s) (agents s) (config N) K of
                       None \<Rightarrow>
                         Inr (True, s\<lparr>state := (state s)\<lparr>generatedConfig := None,
                                                         phase := Select\<rparr>\<rparr>)
                     | Some Qnew \<Rightarrow>
                         Inr (True, s\<lparr>state := (state s)\<lparr>generatedConfig := Some Qnew,
                                                         phase := Check\<rparr>\<rparr>)))))"

definition stepCheck :: "lacam \<Rightarrow> error + bool \<times> lacam" where
  "stepCheck s =
     (case generatedConfig (state s) of
        None \<Rightarrow> Inl TypeError
      | Some Qnew \<Rightarrow>
          if hash Qnew \<in> fst ` set (explored (state s))
          then Inr (True, s\<lparr>state := (state s)\<lparr>phase := Select\<rparr>\<rparr>)
          else
            let Cinit = new_root (llNodeIdCounter s);
                Nnew = HLNode (hlNodeIdCounter s) Qnew (length (queues s)) (Some (length (trees s)))
                         (getOrder (graph s) (agents s) Qnew) (currentHighLevelNode (state s))
            in Inr (True,
                    s\<lparr>state := (state s)
                         \<lparr>open_nodes := open_nodes (state s) @ [Nnew],
                          explored := map_set (explored (state s)) (hash Qnew) Nnew,
                          nodesGenerated := nodesGenerated (state s) + 1,
                          configurationsExplored := configurationsExplored (state s) + 1,
                          phase := Select\<rparr>,
                      hlNodeIdCounter := hlNodeIdCounter s + 1,
                      llNodeIdCounter := llNodeIdCounter s + 1,
                      trees := trees s @ [Cinit],
                      queues := queues s @ [[(length (trees s), [])]]\<rparr>))"

text \<open>
  \<^verbatim>\<open>step\<close>: the returned flag and the solver afterwards. When a phase throws, the
  solver is left as it was when the phase was entered (no phase assigns anything
  before the statement that can throw), with the snapshot saved and the step
  counted; the error is returned with that solver.
\<close>

definition run_phase :: "lacam \<Rightarrow> error + bool \<times> lacam" where
  "run_phase s =
     (case phase (state s) of
        Select \<Rightarrow> stepSelect s
      | PopConstraint \<Rightarrow> stepPopConstraint s
      | ExpandTree \<Rightarrow> stepExpandTree s
      | Generate \<Rightarrow> stepGenerate s
      | Check \<Rightarrow> stepCheck s
      | Init \<Rightarrow> Inr (False, s))"

definition step :: "lacam \<Rightarrow> error \<times> lacam + bool \<times> lacam" where
  "step s =
     (if status (state s) \<noteq> Running then Inr (False, s)
      else
        let s1 = saveHistory s;
            s2 = s1\<lparr>state := (state s1)\<lparr>stepNumber := stepNumber (state s1) + 1\<rparr>\<rparr>
        in case run_phase s2 of Inl e \<Rightarrow> Inl (e, s2) | Inr r \<Rightarrow> Inr r)"

text \<open>A solver for a graph and agents, as \<^verbatim>\<open>new LaCAM(graph, agents)\<close> followed by
  \<^verbatim>\<open>initialize()\<close> leaves it.\<close>

definition new_lacam :: "graph \<Rightarrow> agent list \<Rightarrow> lacam" where
  "new_lacam g ags =
     initialize
       \<lparr>graph = g, agents = ags,
        state = \<lparr>open_nodes = [], explored = [], currentHighLevelNode = None,
                 currentLowLevelNode = None, generatedConfig = None, stepNumber = 0,
                 phase = Init, status = Running, solution = None, nodesGenerated = 0,
                 configurationsExplored = 0\<rparr>,
        history = [], hlNodeIdCounter = 0, llNodeIdCounter = 0, trees = [], queues = []\<rparr>"

text \<open>\<open>steps k s\<close>: \<open>k\<close> calls of \<^verbatim>\<open>step\<close>, none of which throws: the flag of the last
  one and the solver.\<close>

fun steps :: "nat \<Rightarrow> lacam \<Rightarrow> (bool \<times> lacam) option" where
  "steps 0 s = Some (True, s)"
| "steps (Suc k) s =
     (case steps k s of
        None \<Rightarrow> None
      | Some (b, s') \<Rightarrow> (case step s' of Inl e \<Rightarrow> None | Inr r \<Rightarrow> Some r))"

text \<open>The calls of the solver interface, and the solver after a sequence of calls
  (after a call that throws, the caller goes on with the solver as it was left).\<close>

datatype call = CallStep | CallStepBack | CallReset | CallInitialize

fun after_call :: "call \<Rightarrow> lacam \<Rightarrow> lacam" where
  "after_call CallStep s = (case step s of Inl (e, s') \<Rightarrow> s' | Inr (b, s') \<Rightarrow> s')"
| "after_call CallStepBack s = snd (stepBack s)"
| "after_call CallReset s = reset s"
| "after_call CallInitialize s = initialize s"

definition after_calls :: "call list \<Rightarrow> lacam \<Rightarrow> lacam" where
  "after_calls cs s = fold after_call cs s"

section \<open>Well-formed instances and example instances\<close>

text \<open>\<open>heap_grows s s'\<close>: \<open>s'\<close> is \<open>s\<close> with more objects on the heap; nothing else differs
  but the low-level id counter.\<close>

definition heap_grows :: "lacam \<Rightarrow> lacam \<Rightarrow> bool" where
  "heap_grows s s' =
     (graph s' = graph s \<and> agents s' = agents s \<and> state s' = state s \<and>
      history s' = history s \<and> hlNodeIdCounter s' = hlNodeIdCounter s \<and>
      prefix (trees s) (trees s') \<and> prefix (queues s) (queues s'))"

text \<open>\<open>depth_ok N d n\<close>: the node \<open>n\<close> and everything below it carry their distance from
  the root as \<^verbatim>\<open>depth\<close>, starting with \<open>d\<close> at \<open>n\<close>, and no depth exceeds \<open>N\<close>.\<close>

fun depth_ok :: "nat \<Rightarrow> nat \<Rightarrow> llnode \<Rightarrow> bool" where
  "depth_ok N d (LLNode i w v cs dp se sl) =
     (dp = d \<and> d \<le> N \<and> (\<forall>c \<in> set cs. depth_ok N (Suc d) c))"

definition trees_ok :: "lacam \<Rightarrow> bool" where
  "trees_ok s = (\<forall>t \<in> set (trees s). depth_ok (length (agents s)) 0 t)"




text \<open>The bounds of the snapshot history.\<close>

definition history_ok :: "lacam \<Rightarrow> bool" where
  "history_ok s = (1 \<le> length (history s) \<and> length (history s) \<le> 200)"

text \<open>Agents that start at their goals.\<close>

definition agents_home :: "agent list" where
  "agents_home = [\<lparr>agent_id = 0, start = Val 1, goal = Val 1\<rparr>,
                  \<lparr>agent_id = 1, start = Val 2, goal = Val 2\<rparr>]"



text \<open>Agent ids are dense: the agent at index \<open>i\<close> of \<^verbatim>\<open>this.agents\<close> has id \<open>i\<close>
  (\<^verbatim>\<open>App.addAgent\<close> assigns \<^verbatim>\<open>agents.length\<close>, \<^verbatim>\<open>App.removeSelectedAgent\<close> reassigns
  \<^verbatim>\<open>a.id = i\<close>).\<close>

definition wf_agents :: "agent list \<Rightarrow> bool" where
  "wf_agents ags = (map agent_id ags = [0..<length ags])"

text \<open>The move set of a position: staying, or one edge.\<close>

definition moves :: "graph \<Rightarrow> loc \<Rightarrow> loc set" where
  "moves g v = insert v (Val ` set (getNeighbors g v))"

text \<open>\<open>placed_ok P nl occ\<close>: the slots \<open>P\<close> of \<open>nl\<close> hold pairwise distinct entries, all in \<open>occ\<close>.\<close>


definition placed_ok :: "nat set \<Rightarrow> loc list \<Rightarrow> loc list \<Rightarrow> bool" where
  "placed_ok P nl occ =
     ((\<forall>i \<in> P. i < length nl \<and> nl ! i \<in> set occ) \<and>
      (\<forall>i \<in> P. \<forall>j \<in> P. i \<noteq> j \<longrightarrow> nl ! i \<noteq> nl ! j))"

text \<open>The line a - b - c, and agents on it.\<close>

definition g_line :: graph where
  "g_line = \<lparr>vertices = [(0, ''a''), (1, ''b''), (2, ''c'')],
             edges = [(0, 0, 1), (1, 1, 2)],
             adjacency = [(0, [1]), (1, [0, 2]), (2, [1])]\<rparr>"


definition agents_one :: "agent list" where
  "agents_one = [\<lparr>agent_id = 0, start = Val 0, goal = Val 2\<rparr>]"

definition agents_two :: "agent list" where
  "agents_two = [\<lparr>agent_id = 0, start = Val 0, goal = Val 2\<rparr>, \<lparr>agent_id = 1, start = Val 2, goal = Val 0\<rparr>]"

text \<open>A consistent comparator: antisymmetric and transitive in its sign.\<close>

definition consistent :: "('a \<Rightarrow> 'a \<Rightarrow> int) \<Rightarrow> bool" where
  "consistent cmp =
     ((\<forall>x y. 0 < cmp x y \<longrightarrow> cmp y x < 0) \<and>
      (\<forall>x y z. cmp x y \<le> 0 \<longrightarrow> cmp y z \<le> 0 \<longrightarrow> cmp x z \<le> 0))"

text \<open>The order a stable sort establishes: by the comparator, ties by the order \<open>R\<close>
  of the input.\<close>

definition before :: "('a \<Rightarrow> 'a \<Rightarrow> int) \<Rightarrow> ('a \<Rightarrow> 'a \<Rightarrow> bool) \<Rightarrow> 'a \<Rightarrow> 'a \<Rightarrow> bool" where
  "before cmp R x y = (cmp x y < 0 \<or> (cmp x y = 0 \<and> R x y))"

text \<open>The keys the two orders sort by, per agent id.\<close>

definition init_dist :: "graph \<Rightarrow> agent list \<Rightarrow> nat \<Rightarrow> enat" where
  "init_dist g ags a = getDistance g (start (ags ! a)) (goal (ags ! a))"

definition at_goal :: "agent list \<Rightarrow> configuration \<Rightarrow> nat \<Rightarrow> bool" where
  "at_goal ags Q a = (cfg_get Q a = goal (ags ! a))"

definition goal_dist :: "graph \<Rightarrow> agent list \<Rightarrow> configuration \<Rightarrow> nat \<Rightarrow> enat" where
  "goal_dist g ags Q a = getDistance g (cfg_get Q a) (goal (ags ! a))"

definition agents_three :: "agent list" where
  "agents_three = [\<lparr>agent_id = 0, start = Val 0, goal = Val 1\<rparr>,
                   \<lparr>agent_id = 1, start = Val 2, goal = Val 0\<rparr>,
                   \<lparr>agent_id = 2, start = Val 1, goal = Val 1\<rparr>,
                   \<lparr>agent_id = 3, start = Val 1, goal = Val 2\<rparr>]"


subsection \<open>Soundness of the search: the invariant\<close>

text \<open>A well-formed instance: dense agent ids, and every start and goal is a vertex id
  or \<^verbatim>\<open>null\<close> (the \<^verbatim>\<open>Agent\<close> constructor defaults them to \<^verbatim>\<open>null\<close>), never \<^verbatim>\<open>undefined\<close>.\<close>

definition wf_instance :: "agent list \<Rightarrow> bool" where
  "wf_instance ags =
     (wf_agents ags \<and> list_all (\<lambda>a. start a \<noteq> Undefined \<and> goal a \<noteq> Undefined) ags)"

text \<open>Constraints that pin every agent to its position or to a neighbour of it, and
  the successor relation they give.\<close>

definition Kvalid :: "graph \<Rightarrow> configuration \<Rightarrow> constraints \<Rightarrow> bool" where
  "Kvalid g Q K = (\<forall>a w. K (Val a) = Some w \<longrightarrow> w \<in> moves g (cfg_get Q a))"

definition successor :: "graph \<Rightarrow> agent list \<Rightarrow> configuration \<Rightarrow> configuration \<Rightarrow> bool" where
  "successor g ags Q Q' = (\<exists>K. Kvalid g Q K \<and> generateConfig g ags Q K = Some Q')"

text \<open>The chain of parent links of a high-level node: it ends in the start
  configuration, and every node's configuration was generated from its parent's.\<close>

fun chain_valid :: "graph \<Rightarrow> agent list \<Rightarrow> hlnode \<Rightarrow> bool" where
  "chain_valid g ags (HLNode i c t r ord par) =
     (case par of
        None \<Rightarrow> c = map start ags
      | Some p \<Rightarrow> successor g ags (config p) c \<and> chain_valid g ags p)"

text \<open>Every node of a constraint tree that names an agent names a move of that agent
  in the configuration \<open>Q\<close>.\<close>

fun tree_ok :: "graph \<Rightarrow> configuration \<Rightarrow> llnode \<Rightarrow> bool" where
  "tree_ok g Q (LLNode i w v cs d se sl) =
     ((\<forall>a. w = Val a \<longrightarrow> v \<in> moves g (cfg_get Q a)) \<and> (\<forall>c \<in> set cs. tree_ok g Q c))"

definition cfg_ok :: "nat \<Rightarrow> configuration \<Rightarrow> bool" where
  "cfg_ok N Q = (length Q = N \<and> Undefined \<notin> set Q)"

definition node_inv :: "lacam \<Rightarrow> hlnode \<Rightarrow> bool" where
  "node_inv s n =
     (chain_valid (graph s) (agents s) n \<and> cfg_ok (length (agents s)) (config n) \<and>
      length (order n) = length (agents s) \<and> set (order n) \<subseteq> {0..<length (agents s)} \<and>
      (\<exists>r. treeRoot n = Some r \<and> r < length (trees s) \<and>
           tree_ok (graph s) (config n) (trees s ! r) \<and>
           tree n < length (queues s) \<and> (\<forall>x \<in> set (queues s ! tree n). fst x = r)))"

definition live :: "lacam \<Rightarrow> hlnode set" where
  "live s = set (open_nodes (state s)) \<union> set_option (currentHighLevelNode (state s))"

definition phase_ok :: "lacam \<Rightarrow> bool" where
  "phase_ok s =
     (\<forall>N. currentHighLevelNode (state s) = Some N \<longrightarrow>
        (phase (state s) \<in> {ExpandTree, Generate} \<longrightarrow>
           (\<forall>C. currentLowLevelNode (state s) = Some C \<longrightarrow> treeRoot N = Some (fst C))) \<and>
        (phase (state s) = Check \<longrightarrow>
           (\<forall>Q'. generatedConfig (state s) = Some Q' \<longrightarrow>
              successor (graph s) (agents s) (config N) Q' \<and> cfg_ok (length (agents s)) Q')))"

definition solved_ok :: "lacam \<Rightarrow> bool" where
  "solved_ok s =
     (status (state s) = Solved \<longrightarrow>
        (\<exists>n. chain_valid (graph s) (agents s) n \<and> cfg_ok (length (agents s)) (config n) \<and>
             equals (config n) (map goal (agents s)) \<and> solution (state s) = Some (backtrack n)))"

definition search_inv :: "lacam \<Rightarrow> bool" where
  "search_inv s =
     ((\<forall>n \<in> live s. node_inv s n) \<and>
      (\<forall>n \<in> live s. \<forall>n' \<in> live s. (tree n = tree n' \<or> treeRoot n = treeRoot n') \<longrightarrow> n = n') \<and>
      currentHighLevelNode (state s) \<noteq> None \<and> phase_ok s \<and> solved_ok s)"

text \<open>The conditions on a successor \<open>Q'\<close> of \<open>Q\<close>: one position per agent, pairwise
  distinct; every agent stays or crosses one edge; no two agents swap.\<close>

definition valid_successor :: "graph \<Rightarrow> agent list \<Rightarrow> configuration \<Rightarrow> configuration \<Rightarrow> bool" where
  "valid_successor g ags Q Q' =
     (length Q' = length ags \<and> distinct Q' \<and>
      (\<forall>a<length ags. Q' ! a \<in> moves g (cfg_get Q a)) \<and>
      (\<forall>i<length ags. \<forall>j<length ags. i \<noteq> j \<longrightarrow>
          \<not> (cfg_get Q i = Q' ! j \<and> cfg_get Q j = Q' ! i)))"

subsection \<open>Termination of the search: the measure\<close>

text \<open>The largest number of moves of an agent: its position and its neighbours.\<close>

definition branching :: "graph \<Rightarrow> nat" where
  "branching g = Suc (sum_list (map (\<lambda>e. length (snd e)) (adjacency g)))"

text \<open>\<open>weight b r\<close>: the size of a full tree of branching \<open>b\<close> and height \<open>r\<close>, the
  number of queue entries that an entry \<open>r\<close> levels above the deepest level can
  still cause.\<close>

fun weight :: "nat \<Rightarrow> nat \<Rightarrow> nat" where
  "weight b 0 = 1"
| "weight b (Suc r) = Suc (b * weight b r)"

definition ref_weight :: "lacam \<Rightarrow> llref \<Rightarrow> nat" where
  "ref_weight s x =
     (case deref s x of
        None \<Rightarrow> 0
      | Some c \<Rightarrow> weight (branching (graph s)) (length (agents s) - depth c))"

definition queue_weight :: "lacam \<Rightarrow> hlnode \<Rightarrow> nat" where
  "queue_weight s n = Suc (sum_list (map (ref_weight s) (queues s ! tree n)))"

text \<open>The children that the node popped from the queue is about to get.\<close>

definition inflight :: "lacam \<Rightarrow> nat" where
  "inflight s =
     (if phase (state s) = ExpandTree then
        (case currentLowLevelNode (state s) of
           None \<Rightarrow> 0
         | Some C \<Rightarrow>
             (case deref s C of
                None \<Rightarrow> 0
              | Some c \<Rightarrow>
                  if depth c < length (agents s)
                  then branching (graph s) *
                       weight (branching (graph s)) (length (agents s) - Suc (depth c))
                  else 0))
      else 0)"

definition potential :: "lacam \<Rightarrow> nat" where
  "potential s = sum_list (map (queue_weight s) (open_nodes (state s))) + inflight s"

fun phase_rank :: "phase \<Rightarrow> nat" where
  "phase_rank Select = 1"
| "phase_rank PopConstraint = 0"
| "phase_rank ExpandTree = 4"
| "phase_rank Generate = 3"
| "phase_rank Check = 2"
| "phase_rank Init = 0"

definition mu :: "lacam \<Rightarrow> nat" where
  "mu s = 6 * potential s + phase_rank (phase (state s))"

text \<open>The positions an agent can ever take, the hashes of the configurations over
  them, and the number of those not yet in Explored.\<close>

definition universe :: "graph \<Rightarrow> agent list \<Rightarrow> loc set" where
  "universe g ags = set (map start ags) \<union> Val ` (\<Union>e \<in> set (adjacency g). set (snd e))"

definition hashes :: "graph \<Rightarrow> agent list \<Rightarrow> hash set" where
  "hashes g ags = hash ` {Q. set Q \<subseteq> universe g ags \<and> length Q = length ags}"

definition unexplored :: "lacam \<Rightarrow> nat" where
  "unexplored s = card (hashes (graph s) (agents s) - fst ` set (explored (state s)))"

definition smaller :: "lacam \<Rightarrow> lacam \<Rightarrow> bool" where
  "smaller s' s =
     (unexplored s' < unexplored s \<or> (unexplored s' = unexplored s \<and> mu s' < mu s))"

text \<open>What a run of \<^verbatim>\<open>step()\<close> keeps true besides \<open>search_inv\<close>, so that no phase throws.\<close>

definition term_inv :: "lacam \<Rightarrow> bool" where
  "term_inv s =
     (search_inv s \<and> wf_agents (agents s) \<and> distinct (open_nodes (state s)) \<and>
      (\<forall>n \<in> live s. set (config n) \<subseteq> universe (graph s) (agents s)) \<and>
      (\<forall>n \<in> live s. \<forall>x \<in> set (queues s ! tree n). deref s x \<noteq> None) \<and>
      phase (state s) \<noteq> Init \<and>
      (phase (state s) \<in> {PopConstraint, ExpandTree} \<longrightarrow>
         open_nodes (state s) \<noteq> [] \<and>
         currentHighLevelNode (state s) = Some (last (open_nodes (state s)))) \<and>
      (phase (state s) = PopConstraint \<longrightarrow>
         queues s ! tree (last (open_nodes (state s))) \<noteq> []) \<and>
      (phase (state s) \<in> {ExpandTree, Generate} \<longrightarrow>
         (\<exists>C. currentLowLevelNode (state s) = Some C \<and> deref s C \<noteq> None)) \<and>
      (phase (state s) = Check \<longrightarrow> generatedConfig (state s) \<noteq> None))"

text \<open>The outcome of a call of \<^verbatim>\<open>step()\<close> in a running search: it returns \<open>false\<close> and
  the search has ended, or it returns \<open>true\<close>, the search is still running, the
  invariant holds and the measure is smaller.\<close>

definition good :: "lacam \<Rightarrow> bool \<Rightarrow> lacam \<Rightarrow> bool" where
  "good s b s' =
     ((\<not> b \<and> status (state s') \<noteq> Running) \<or>
      (b \<and> status (state s') = Running \<and> term_inv s' \<and> smaller s' s))"

subsection \<open>Hop distance and the correctness of the search\<close>

text \<open>\<open>walk g a k b\<close>: there is a walk of \<open>k\<close> edges from \<open>a\<close> to \<open>b\<close>, each edge
  an entry of the adjacency index.\<close>

fun walk :: "graph \<Rightarrow> loc \<Rightarrow> nat \<Rightarrow> loc \<Rightarrow> bool" where
  "walk g a 0 b = (a = b)"
| "walk g a (Suc k) b = (\<exists>c \<in> set (getNeighbors g a). walk g (Val c) k b)"

lemma walk_snoc: "walk g a k v \<Longrightarrow> n \<in> set (getNeighbors g v) \<Longrightarrow> walk g a (Suc k) (Val n)"
proof (induction k arbitrary: a)
  case 0
  then show ?case by simp
next
  case (Suc k)
  from Suc.prems(1) obtain c where c: "c \<in> set (getNeighbors g a)" "walk g (Val c) k v"
    by auto
  from Suc.IH[OF c(2) Suc.prems(2)] have "walk g (Val c) (Suc k) (Val n)" .
  with c(1) show ?case unfolding walk.simps(2)[of g a "Suc k"] by blast
qed

lemma walk_last: "walk g a (Suc k) w \<Longrightarrow> \<exists>v n. walk g a k v \<and> n \<in> set (getNeighbors g v) \<and> w = Val n"
proof (induction k arbitrary: a)
  case 0
  then show ?case by auto
next
  case (Suc k)
  from Suc.prems obtain c where c: "c \<in> set (getNeighbors g a)" "walk g (Val c) (Suc k) w"
    by auto
  from Suc.IH[OF c(2)] obtain v n where "walk g (Val c) k v" "n \<in> set (getNeighbors g v)" "w = Val n"
    by blast
  with c(1) show ?case by auto
qed

definition hops :: "graph \<Rightarrow> loc \<Rightarrow> loc \<Rightarrow> nat \<Rightarrow> bool" where
  "hops g a b d = (walk g a d b \<and> (\<forall>k<d. \<not> walk g a k b))"

lemma visit_neighbors_char:
  "visit_neighbors vis q d ns = (vis', q') \<Longrightarrow>
   \<exists>news. vis' = vis @ map Val news \<and> q' = q @ map (\<lambda>n. (Val n, d + 1)) news \<and>
          set news = {n \<in> set ns. Val n \<notin> set vis}"
proof (induction vis q d ns rule: visit_neighbors.induct)
  case (1 visited queue d)
  then show ?case by auto
next
  case (2 visited queue d n ns)
  show ?case
  proof (cases "Val n \<in> set visited")
    case True
    with "2.prems" have "visit_neighbors visited queue d ns = (vis', q')" by simp
    from "2.IH"(1)[OF True this] obtain news where
      "vis' = visited @ map Val news" "q' = queue @ map (\<lambda>n. (Val n, d + 1)) news"
      "set news = {n \<in> set ns. Val n \<notin> set visited}" by blast
    with True show ?thesis by (intro exI[of _ news]) auto
  next
    case False
    with "2.prems" have "visit_neighbors (visited @ [Val n]) (queue @ [(Val n, d + 1)]) d ns = (vis', q')"
      by simp
    from "2.IH"(2)[OF False this] obtain news where
      n: "vis' = (visited @ [Val n]) @ map Val news"
         "q' = (queue @ [(Val n, d + 1)]) @ map (\<lambda>n. (Val n, d + 1)) news"
         "set news = {m \<in> set ns. Val m \<notin> set (visited @ [Val n])}" by blast
    with False show ?thesis by (intro exI[of _ "n # news"]) auto
  qed
qed

definition bfs_inv :: "graph \<Rightarrow> loc \<Rightarrow> loc \<Rightarrow> loc list \<Rightarrow> (loc \<times> nat) list \<Rightarrow> bool" where
  "bfs_inv g s to vis q =
    (s \<in> set vis \<and>
     (\<forall>(v, d) \<in> set q. hops g s v d \<and> v \<in> set vis) \<and>
     sorted (map snd q) \<and> (\<forall>x \<in> set q. \<forall>y \<in> set q. snd y \<le> snd x + 1) \<and>
     (\<forall>v \<in> set vis. v \<in> fst ` set q \<or> (v \<noteq> to \<and> Val ` set (getNeighbors g v) \<subseteq> set vis)) \<and>
     (\<forall>(v, d) \<in> set q. \<forall>u k. walk g s k u \<and> k < d \<longrightarrow> u \<in> set vis))"

lemma bfs_inv_init: "bfs_inv g s to [s] [(s, 0)]"
  by (simp add: bfs_inv_def hops_def)

lemma bfs_inv_closer:
  assumes inv: "bfs_inv g s to vis ((v, d) # q)" and w: "walk g s k u" and k: "k \<le> d"
  shows "u \<in> set vis"
proof (cases "k < d")
  case True
  with inv w show ?thesis unfolding bfs_inv_def by auto
next
  case False
  with k have kd: "k = d" by simp
  show ?thesis
  proof (cases d)
    case 0
    with kd w inv show ?thesis by (simp add: bfs_inv_def)
  next
    case (Suc d')
    with kd w obtain x n where x: "walk g s d' x" "n \<in> set (getNeighbors g x)" "u = Val n"
      using walk_last by blast
    from inv x(1) Suc have xv: "x \<in> set vis" unfolding bfs_inv_def by auto
    have "x \<notin> fst ` set ((v, d) # q)"
    proof
      assume "x \<in> fst ` set ((v, d) # q)"
      then obtain dx where dx: "(x, dx) \<in> set ((v, d) # q)" by force
      with inv have "hops g s x dx" unfolding bfs_inv_def by auto
      with x(1) have "dx \<le> d'" unfolding hops_def by (meson not_less)
      moreover from inv dx have "d \<le> dx" unfolding bfs_inv_def by auto
      ultimately show False using Suc by simp
    qed
    with inv xv have "Val ` set (getNeighbors g x) \<subseteq> set vis"
      unfolding bfs_inv_def by blast
    with x show ?thesis by auto
  qed
qed

lemma bfs_inv_step:
  assumes inv: "bfs_inv g s to vis ((v, d) # q)" and ne: "v \<noteq> to"
    and vn: "visit_neighbors vis q d (getNeighbors g v) = (vis', q')"
  shows "bfs_inv g s to vis' q'"
proof -
  from visit_neighbors_char[OF vn] obtain news where
    vis': "vis' = vis @ map Val news" and q': "q' = q @ map (\<lambda>n. (Val n, d + 1)) news" and
    news: "set news = {n \<in> set (getNeighbors g v). Val n \<notin> set vis}" by blast
  have hv: "hops g s v d" and vv: "v \<in> set vis" using inv unfolding bfs_inv_def by auto
  have qd: "\<And>x. x \<in> set q \<Longrightarrow> d \<le> snd x \<and> snd x \<le> d + 1"
    using inv unfolding bfs_inv_def by force
  have qd': "d \<le> snd x \<and> snd x \<le> d + 1" if "x \<in> set q'" for x
  proof (cases "x \<in> set q")
    case True
    then show ?thesis by (rule qd)
  next
    case False
    with that show ?thesis unfolding q' by auto
  qed
  have c1: "s \<in> set vis'" using inv vis' unfolding bfs_inv_def by simp
  have newhops: "hops g s (Val n) (d + 1)" if "n \<in> set news" for n
  proof -
    from that news have n: "n \<in> set (getNeighbors g v)" "Val n \<notin> set vis" by auto
    from hv n(1) have "walk g s (Suc d) (Val n)" unfolding hops_def using walk_snoc by blast
    moreover have "\<not> walk g s k (Val n)" if "k < d + 1" for k
    proof
      assume "walk g s k (Val n)"
      from bfs_inv_closer[OF inv this] that n(2) show False by simp
    qed
    ultimately show ?thesis unfolding hops_def by simp
  qed
  have c2: "\<forall>(x, dx) \<in> set q'. hops g s x dx \<and> x \<in> set vis'"
    using inv newhops unfolding bfs_inv_def q' vis' by auto
  have c3: "sorted (map snd q')"
  proof -
    have "sorted (map snd q)" using inv unfolding bfs_inv_def by simp
    moreover have "sorted (map snd (map (\<lambda>n. (Val n, d + 1)) news))"
      by (induction news) auto
    ultimately show ?thesis unfolding q' using qd by (auto simp: sorted_append)
  qed
  have c4: "\<forall>x \<in> set q'. \<forall>y \<in> set q'. snd y \<le> snd x + 1"
  proof (intro ballI)
    fix x y assume "x \<in> set q'" "y \<in> set q'"
    then have "d \<le> snd x \<and> snd x \<le> d + 1" "d \<le> snd y \<and> snd y \<le> d + 1"
      using qd' by blast+
    then show "snd y \<le> snd x + 1" by simp
  qed
  have c5: "\<forall>x \<in> set vis'. x \<in> fst ` set q' \<or> (x \<noteq> to \<and> Val ` set (getNeighbors g x) \<subseteq> set vis')"
  proof
    fix x assume x: "x \<in> set vis'"
    show "x \<in> fst ` set q' \<or> (x \<noteq> to \<and> Val ` set (getNeighbors g x) \<subseteq> set vis')"
    proof (cases "x \<in> set vis")
      case True
      show ?thesis
      proof (cases "x = v")
        case True
        have "Val ` set (getNeighbors g v) \<subseteq> set vis'" unfolding vis' using news by auto
        with True ne show ?thesis by simp
      next
        case False
        from inv True have "x \<in> fst ` set ((v, d) # q) \<or> (x \<noteq> to \<and> Val ` set (getNeighbors g x) \<subseteq> set vis)"
          unfolding bfs_inv_def by blast
        with False show ?thesis unfolding q' vis' by auto
      qed
    next
      case False
      with x vis' obtain n where "n \<in> set news" "x = Val n" by auto
      then show ?thesis unfolding q' by force
    qed
  qed
  have c6: "\<forall>(x, dx) \<in> set q'. \<forall>u k. walk g s k u \<and> k < dx \<longrightarrow> u \<in> set vis'"
  proof (clarify)
    fix x dx u k assume xq: "(x, dx) \<in> set q'" and w: "walk g s k u" and k: "k < dx"
    from xq qd have "dx \<le> d + 1" unfolding q' by auto
    with k have "k \<le> d" by simp
    from bfs_inv_closer[OF inv w this] show "u \<in> set vis'" unfolding vis' by simp
  qed
  from c1 c2 c3 c4 c5 c6 show ?thesis unfolding bfs_inv_def by blast
qed

lemma bfs_inv_empty:
  assumes inv: "bfs_inv g s to vis []" and w: "walk g s k u"
  shows "u \<in> set vis \<and> u \<noteq> to"
  using w
proof (induction k arbitrary: u)
  case 0
  with inv show ?case unfolding bfs_inv_def by auto
next
  case (Suc k)
  from walk_last[OF Suc.prems] obtain x n where
    x: "walk g s k x" "n \<in> set (getNeighbors g x)" "u = Val n" by blast
  from Suc.IH[OF x(1)] inv have "Val ` set (getNeighbors g x) \<subseteq> set vis"
    unfolding bfs_inv_def by auto
  with x have "u \<in> set vis" by auto
  with inv show ?case unfolding bfs_inv_def by auto
qed

lemma bfs_correct:
  "bfs_inv g s to vis q \<Longrightarrow>
   bfs g to vis q = (if \<exists>k. walk g s k to then enat (LEAST k. walk g s k to) else \<infinity>)"
proof (induction g to vis q rule: bfs.induct)
  case (1 g to visited)
  from bfs_inv_empty[OF 1] have "\<not> (\<exists>k. walk g s k to)" by blast
  then show ?case by simp
next
  case (2 g to visited v d queue)
  show ?case
  proof (cases "v = to")
    case True
    from 2(2) True have h: "hops g s to d" unfolding bfs_inv_def by auto
    then have "(LEAST k. walk g s k to) = d"
      unfolding hops_def by (intro Least_equality) (auto simp: not_less[symmetric])
    with h True show ?thesis unfolding hops_def by auto
  next
    case False
    obtain vis' q' where vn: "visit_neighbors visited queue d (getNeighbors g v) = (vis', q')"
      by (cases "visit_neighbors visited queue d (getNeighbors g v)")
    from bfs_inv_step[OF 2(2) False vn] have "bfs_inv g s to vis' q'" .
    from "2.IH"[OF False vn[symmetric] this] vn False show ?thesis by simp
  qed
qed

text \<open>
  Claim C5. \<^verbatim>\<open>getDistance(from, to)\<close> returns 0 when the arguments are equal;
  otherwise \<^verbatim>\<open>Infinity\<close> when one of them is \<^verbatim>\<open>null\<close> or when \<open>to\<close> cannot be
  reached from \<open>from\<close> along adjacency entries; otherwise the exact hop distance,
  the least number of edges of a walk from \<open>from\<close> to \<open>to\<close>.
\<close>

theorem getDistance_hop_distance:
  "getDistance g from to =
     (if from = to then 0
      else if from = Null \<or> to = Null then \<infinity>
      else if \<exists>k. walk g from k to then enat (LEAST k. walk g from k to)
      else \<infinity>)"
  by (simp add: getDistance_def bfs_correct[OF bfs_inv_init] del: bfs.simps)

section \<open>Successor validity\<close>

lemma js_get_nth [simp]: "i < length xs \<Longrightarrow> js_get xs i = xs ! i"
  by (simp add: js_get_def)

lemma js_set_upd [simp]: "i < length xs \<Longrightarrow> js_set xs i v = xs[i := v]"
  by (simp add: js_set_def)

lemma fold_try_neighbor:
  assumes "P (fst best)" and "\<And>n. n \<in> set ns \<Longrightarrow> Val n \<notin> set occ \<Longrightarrow> P (Val n)"
  shows "P (fst (fold (try_neighbor g gl occ) ns best))"
  using assms
proof (induction ns arbitrary: best)
  case Nil
  then show ?case by simp
next
  case (Cons n ns)
  have "P (fst (try_neighbor g gl occ n best))"
    using Cons.prems by (auto simp: try_neighbor_def Let_def)
  then show ?case using Cons by simp
qed

lemma getBestMove_cases:
  "getBestMove g a cur gl occ = Null \<or>
   (getBestMove g a cur gl occ \<notin> set occ \<and>
    (getBestMove g a cur gl occ = cur \<or> getBestMove g a cur gl occ \<in> Val ` set (getNeighbors g cur)))"
proof (cases "cur = gl \<and> cur \<notin> set occ")
  case True
  then have c: "cur = gl" "cur \<notin> set occ" by auto
  have "getBestMove g a cur gl occ = cur" unfolding getBestMove_def using c by simp
  with c show ?thesis by simp
next
  case False
  let ?P = "\<lambda>r. r = Null \<or> (r \<notin> set occ \<and> (r = cur \<or> r \<in> Val ` set (getNeighbors g cur)))"
  let ?best = "if cur \<notin> set occ then (cur, getDistance g cur gl) else (Null, \<infinity>)"
  have P: "?P (fst (fold (try_neighbor g gl occ) (getNeighbors g cur) ?best))"
    by (rule fold_try_neighbor) auto
  from False have "getBestMove g a cur gl occ = fst (fold (try_neighbor g gl occ) (getNeighbors g cur) ?best)"
    unfolding getBestMove_def Let_def by (simp only: if_False)
  with P show ?thesis by simp
qed

lemma placed_ok_step:
  assumes "placed_ok P nl occ" "i \<notin> P" "i < length nl" "v \<notin> set occ"
  shows "placed_ok (insert i P) (nl[i := v]) (occ @ [v])"
  using assms unfolding placed_ok_def by (auto simp: nth_list_update)

lemma place_constrained_ok:
  assumes "place_constrained K as (nl, occ) = Some (nl', occ')"
    and "placed_ok P nl occ" and "distinct (map agent_id as)"
    and "\<forall>a \<in> set as. agent_id a < length nl \<and> agent_id a \<notin> P"
  shows "placed_ok (P \<union> agent_id ` set as) nl' occ' \<and> length nl' = length nl \<and>
         (\<forall>i. i \<notin> agent_id ` set as \<longrightarrow> nl' ! i = nl ! i) \<and>
         (\<forall>a \<in> set as. nl' ! agent_id a = constraints_get K (agent_id a))"
  using assms
proof (induction as arbitrary: nl occ P)
  case Nil
  then show ?case by simp
next
  case (Cons a as)
  let ?v = "constraints_get K (agent_id a)"
  have lt: "agent_id a < length nl" using Cons.prems(4) by simp
  from Cons.prems(1) lt have v: "?v \<notin> set occ"
    and rec: "place_constrained K as (nl[agent_id a := ?v], occ @ [?v]) = Some (nl', occ')"
    by (simp_all add: Let_def split: if_splits)
  have ok: "placed_ok (insert (agent_id a) P) (nl[agent_id a := ?v]) (occ @ [?v])"
    using Cons.prems v by (intro placed_ok_step) auto
  have IH: "placed_ok (insert (agent_id a) P \<union> agent_id ` set as) nl' occ' \<and>
        length nl' = length (nl[agent_id a := ?v]) \<and>
        (\<forall>i. i \<notin> agent_id ` set as \<longrightarrow> nl' ! i = nl[agent_id a := ?v] ! i) \<and>
        (\<forall>a \<in> set as. nl' ! agent_id a = constraints_get K (agent_id a))"
  proof (rule Cons.IH[OF rec ok])
    show "distinct (map agent_id as)" using Cons.prems(3) by simp
    show "\<forall>b \<in> set as. agent_id b < length (nl[agent_id a := ?v]) \<and> agent_id b \<notin> insert (agent_id a) P"
      using Cons.prems(3,4) by (auto simp: image_iff)
  qed
  have "agent_id a \<notin> agent_id ` set as" using Cons.prems(3) by auto
  with IH Cons.prems(4) show ?case by (auto simp: nth_list_update)
qed

lemma place_unconstrained_ok:
  assumes "place_unconstrained g Q as (nl, occ) = Some (nl', occ')"
    and "placed_ok P nl occ" and "distinct (map agent_id as)"
    and "\<forall>a \<in> set as. agent_id a < length nl \<and> agent_id a \<notin> P"
  shows "placed_ok (P \<union> agent_id ` set as) nl' occ' \<and> length nl' = length nl \<and>
         (\<forall>i. i \<notin> agent_id ` set as \<longrightarrow> nl' ! i = nl ! i) \<and>
         (\<forall>a \<in> set as. nl' ! agent_id a = cfg_get Q (agent_id a) \<or>
                        nl' ! agent_id a \<in> Val ` set (getNeighbors g (cfg_get Q (agent_id a))))"
  using assms
proof (induction as arbitrary: nl occ P)
  case Nil
  then show ?case by simp
next
  case (Cons a as)
  let ?v = "getBestMove g (agent_id a) (cfg_get Q (agent_id a)) (goal a) occ"
  have lt: "agent_id a < length nl" using Cons.prems(4) by simp
  from Cons.prems(1) lt have nn: "?v \<noteq> Null"
    and rec: "place_unconstrained g Q as (nl[agent_id a := ?v], occ @ [?v]) = Some (nl', occ')"
    by (simp_all add: Let_def split: if_splits)
  from getBestMove_cases[of g "agent_id a" "cfg_get Q (agent_id a)" "goal a" occ] nn
  have v: "?v \<notin> set occ"
    and mv: "?v = cfg_get Q (agent_id a) \<or> ?v \<in> Val ` set (getNeighbors g (cfg_get Q (agent_id a)))"
    by blast+
  have ok: "placed_ok (insert (agent_id a) P) (nl[agent_id a := ?v]) (occ @ [?v])"
    using Cons.prems v by (intro placed_ok_step) auto
  have IH: "placed_ok (insert (agent_id a) P \<union> agent_id ` set as) nl' occ' \<and>
        length nl' = length (nl[agent_id a := ?v]) \<and>
        (\<forall>i. i \<notin> agent_id ` set as \<longrightarrow> nl' ! i = nl[agent_id a := ?v] ! i) \<and>
        (\<forall>a \<in> set as. nl' ! agent_id a = cfg_get Q (agent_id a) \<or>
                        nl' ! agent_id a \<in> Val ` set (getNeighbors g (cfg_get Q (agent_id a))))"
  proof (rule Cons.IH[OF rec ok])
    show "distinct (map agent_id as)" using Cons.prems(3) by simp
    show "\<forall>b \<in> set as. agent_id b < length (nl[agent_id a := ?v]) \<and> agent_id b \<notin> insert (agent_id a) P"
      using Cons.prems(3,4) by (auto simp: image_iff)
  qed
  have "agent_id a \<notin> agent_id ` set as" using Cons.prems(3) by auto
  with IH Cons.prems(4) mv show ?case by (auto simp: nth_list_update)
qed

lemma mset_js_insert: "mset (js_insert cmp x xs) = add_mset x (mset xs)"
  by (induction xs) auto

lemma mset_js_sort: "mset (js_sort cmp xs) = mset xs"
  by (induction xs) (auto simp: mset_js_insert)

lemma set_js_sort: "set (js_sort cmp xs) = set xs"
  using mset_js_sort[of cmp xs] by (metis set_mset_mset)

lemma distinct_map_js_sort: "distinct (map f (js_sort cmp xs)) = distinct (map f xs)"
proof -
  have "mset (map f (js_sort cmp xs)) = mset (map f xs)" by (simp add: mset_js_sort)
  then show ?thesis by (metis distinct_count_atmost_1 set_mset_mset)
qed

lemma swap_conflictD:
  assumes "\<not> swap_conflict n Q nl" "i < n" "j < n" "i \<noteq> j"
  shows "\<not> (cfg_get Q i = js_get nl j \<and> cfg_get Q j = js_get nl i)"
proof -
  have *: "\<not> (cfg_get Q a = js_get nl b \<and> cfg_get Q b = js_get nl a)" if "a < b" "b < n" for a b
    using assms(1) that unfolding swap_conflict_def list_ex_iff by auto
  show ?thesis
  proof (cases "i < j")
    case True
    with *[of i j] assms show ?thesis by simp
  next
    case False
    with assms have "j < i" by simp
    with *[of j i] assms show ?thesis by auto
  qed
qed

lemma wf_agents_nth: "wf_agents ags \<Longrightarrow> i < length ags \<Longrightarrow> agent_id (ags ! i) = i"
  unfolding wf_agents_def by (metis add_0 length_map nth_map nth_upt)

lemma wf_agents_distinct: "wf_agents ags \<Longrightarrow> distinct (map agent_id ags)"
  unfolding wf_agents_def by simp

lemma wf_agents_ids: "wf_agents ags \<Longrightarrow> agent_id ` set ags = {0..<length ags}"
  unfolding wf_agents_def by (metis atLeastLessThan_upt list.set_map)

lemma generateConfig_core:
  assumes wf: "wf_agents ags" and gen: "generateConfig g ags Q K = Some Q'"
  shows "length Q' = length ags" and "distinct Q'"
    and "\<And>a. a < length ags \<Longrightarrow> K (Val a) = None \<Longrightarrow>
           Q' ! a = cfg_get Q a \<or> Q' ! a \<in> Val ` set (getNeighbors g (cfg_get Q a))"
    and "\<And>i j. i < length ags \<Longrightarrow> j < length ags \<Longrightarrow> i \<noteq> j \<Longrightarrow>
           \<not> (cfg_get Q i = Q' ! j \<and> cfg_get Q j = Q' ! i)"
    and "\<And>a w. a < length ags \<Longrightarrow> K (Val a) = Some w \<Longrightarrow> Q' ! a = w"
proof -
  let ?N = "length ags"
  let ?cs = "filter (\<lambda>a. K (Val (agent_id a)) \<noteq> None) ags"
  let ?cmp = "\<lambda>a b. js_diff_sign (getDistance g (cfg_get Q (agent_id b)) (goal b))
                               (getDistance g (cfg_get Q (agent_id a)) (goal a))"
  let ?us = "js_sort ?cmp (filter (\<lambda>a. K (Val (agent_id a)) = None) ags)"
  from gen obtain nl1 occ1 occ2 where
    pc: "place_constrained K ?cs (replicate ?N Undefined, []) = Some (nl1, occ1)" and
    pu: "place_unconstrained g Q ?us (nl1, occ1) = Some (Q', occ2)" and
    sw: "\<not> swap_conflict ?N Q Q'"
    unfolding generateConfig_def Let_def
    by (auto simp del: not_None_eq split: option.splits if_splits)
  have ids: "agent_id ` set ags = {0..<?N}" by (rule wf_agents_ids[OF wf])
  have dcs: "distinct (map agent_id ?cs)"
    using wf_agents_distinct[OF wf] by (simp add: distinct_map_filter)
  have dus: "distinct (map agent_id ?us)"
    using wf_agents_distinct[OF wf] by (simp add: distinct_map_js_sort distinct_map_filter)
  have sus: "set ?us = {a \<in> set ags. K (Val (agent_id a)) = None}"
    by (simp add: set_js_sort)
  have "placed_ok {} (replicate ?N (Undefined :: loc)) []" by (simp add: placed_ok_def)
  moreover have "\<forall>a \<in> set ?cs. agent_id a < length (replicate ?N (Undefined :: loc)) \<and> agent_id a \<notin> {}"
    using ids by auto
  ultimately have c1: "placed_ok (agent_id ` set ?cs) nl1 occ1 \<and> length nl1 = ?N \<and>
         (\<forall>a \<in> set ?cs. nl1 ! agent_id a = constraints_get K (agent_id a))"
    using place_constrained_ok[OF pc _ dcs, of "{}"] by simp
  then have l1: "length nl1 = ?N" by simp
  have c2: "placed_ok (agent_id ` set ?cs \<union> agent_id ` set ?us) Q' occ2 \<and> length Q' = length nl1 \<and>
         (\<forall>i. i \<notin> agent_id ` set ?us \<longrightarrow> Q' ! i = nl1 ! i) \<and>
         (\<forall>a \<in> set ?us. Q' ! agent_id a = cfg_get Q (agent_id a) \<or>
                        Q' ! agent_id a \<in> Val ` set (getNeighbors g (cfg_get Q (agent_id a))))"
  proof (rule place_unconstrained_ok[OF pu _ dus])
    show "placed_ok (agent_id ` set ?cs) nl1 occ1" using c1 by simp
    show "\<forall>a \<in> set ?us. agent_id a < length nl1 \<and> agent_id a \<notin> agent_id ` set ?cs"
      using ids l1 unfolding sus by auto
  qed
  then show len: "length Q' = ?N" using l1 by simp
  have "set ?cs \<union> set ?us = set ags" unfolding sus by auto
  then have "agent_id ` set ?cs \<union> agent_id ` set ?us = agent_id ` set ags"
    by (metis image_Un)
  with ids have all: "agent_id ` set ?cs \<union> agent_id ` set ?us = {0..<?N}" by simp
  with c2 have ok: "placed_ok {0..<?N} Q' occ2" by simp
  show "distinct Q'"
    unfolding distinct_conv_nth using ok len unfolding placed_ok_def by auto
  {
    fix a assume a: "a < ?N" and k: "K (Val a) = None"
    from a wf have "ags ! a \<in> set ags" "agent_id (ags ! a) = a"
      by (auto simp: wf_agents_nth)
    with k have mem: "ags ! a \<in> set ?us" unfolding sus by simp
    from c2 have "\<forall>b \<in> set ?us. Q' ! agent_id b = cfg_get Q (agent_id b) \<or>
                        Q' ! agent_id b \<in> Val ` set (getNeighbors g (cfg_get Q (agent_id b)))"
      by (elim conjE)
    from bspec[OF this mem] \<open>agent_id (ags ! a) = a\<close>
    show "Q' ! a = cfg_get Q a \<or> Q' ! a \<in> Val ` set (getNeighbors g (cfg_get Q a))"
      by simp
  }
  {
    fix i j assume "i < ?N" "j < ?N" "i \<noteq> j"
    from swap_conflictD[OF sw this] len \<open>i < ?N\<close> \<open>j < ?N\<close>
    show "\<not> (cfg_get Q i = Q' ! j \<and> cfg_get Q j = Q' ! i)" by simp
  }
  {
    fix a w assume a: "a < ?N" and k: "K (Val a) = Some w"
    from a wf have m: "ags ! a \<in> set ags" "agent_id (ags ! a) = a"
      by (auto simp: wf_agents_nth)
    with k have mem: "ags ! a \<in> set ?cs" by simp
    from c1 have "\<forall>b \<in> set ?cs. nl1 ! agent_id b = constraints_get K (agent_id b)"
      by (elim conjE)
    from bspec[OF this mem] m(2) have "nl1 ! a = constraints_get K a" by simp
    moreover have "a \<notin> agent_id ` set ?us" unfolding sus using k by auto
    ultimately show "Q' ! a = w" using c2 k by (simp add: constraints_get_def)
  }
qed

text \<open>
  Claim C1, as amended. If the agent ids are dense and every constraint \<open>K[a]\<close> is
  \<open>Q[a]\<close> or a neighbour of \<open>Q[a]\<close>, then a configuration \<open>Q'\<close> returned by
  \<^verbatim>\<open>generateConfig(Q, K)\<close> has (a) \<open>N\<close> pairwise distinct positions, (b) every agent at
  its old position or at a neighbour of it, (c) no pair of ags swapped, and
  (d) every constrained agent at its constraint. (Parts (a), (c), (d), and (b) for
  the unconstrained ags, hold for every \<open>K\<close>: lemma \<open>generateConfig_core\<close>.)
\<close>

theorem generateConfig_valid:
  assumes "wf_agents ags" and "generateConfig g ags Q K = Some Q'"
    and "\<forall>a<length ags. \<forall>w. K (Val a) = Some w \<longrightarrow> w \<in> moves g (cfg_get Q a)"
  shows "length Q' = length ags \<and> distinct Q' \<and>
    (\<forall>a<length ags. Q' ! a \<in> moves g (cfg_get Q a)) \<and>
    (\<forall>i<length ags. \<forall>j<length ags. i \<noteq> j \<longrightarrow>
        \<not> (cfg_get Q i = Q' ! j \<and> cfg_get Q j = Q' ! i)) \<and>
    (\<forall>a<length ags. \<forall>w. K (Val a) = Some w \<longrightarrow> Q' ! a = w)"
proof -
  note core = generateConfig_core[OF assms(1,2)]
  have "Q' ! a \<in> moves g (cfg_get Q a)" if "a < length ags" for a
  proof (cases "K (Val a)")
    case None
    from core(3)[OF that None] show ?thesis by (auto simp: moves_def)
  next
    case (Some w)
    with core(5)[OF that Some] assms(3) that show ?thesis by simp
  qed
  with core show ?thesis by blast
qed

theorem generateConfig_valid_witness:
  "wf_agents agents_two \<and>
   generateConfig g_line agents_two [Val 0, Val 2] [Val 1 \<mapsto> Val 2] = Some [Val 1, Val 2] \<and>
   distinct [Val 1, Val 2 :: loc] \<and>
   [Val 1, Val 2] ! 0 \<in> moves g_line (cfg_get [Val 0, Val 2] 0) \<and>
   [Val 1, Val 2] ! 1 \<in> moves g_line (cfg_get [Val 0, Val 2] 1) \<and>
   [Val 1, Val 2 :: loc] ! 1 = Val 2"
proof -
  have h1: "wf_agents agents_two" by code_simp
  have h2: "generateConfig g_line agents_two [Val 0, Val 2] [Val 1 \<mapsto> Val 2] = Some [Val 1, Val 2]"
    by code_simp
  have l: "length agents_two = 2" by (simp add: agents_two_def)
  have h3: "\<forall>a<length agents_two. \<forall>w. [Val 1 \<mapsto> Val 2] (Val a) = Some w \<longrightarrow>
              w \<in> moves g_line (cfg_get [Val 0, Val 2] a)"
    unfolding l by (auto simp: moves_def cfg_get_def js_get_def split: if_splits)
  note v = generateConfig_valid[OF h1 h2 h3]
  then have m: "\<And>a. a < 2 \<Longrightarrow> [Val 1, Val 2] ! a \<in> moves g_line (cfg_get [Val 0, Val 2] a)"
    unfolding l by blast
  from m[of 0] m[of 1] h1 h2 show ?thesis by simp
qed

text \<open>
  Claim C1 as stated fails in part (b): \<^verbatim>\<open>generateConfig\<close> copies a constraint into
  \<open>Q'\<close> without comparing it with \<open>Q\<close>. On the line a - b - c, the agent at a
  constrained to c is placed at c, which is neither a nor a neighbour of a.
\<close>

theorem generateConfig_far_constraint:
  "wf_agents agents_one \<and> generateConfig g_line agents_one [Val 0] [Val 0 \<mapsto> Val 2] = Some [Val 2] \<and>
   [Val 2] ! 0 \<noteq> cfg_get [Val 0] 0 \<and> 2 \<notin> set (getNeighbors g_line (cfg_get [Val 0] 0))"
  by code_simp


section \<open>Priority orders are stable sorts\<close>

lemma set_js_insert: "set (js_insert cmp x xs) = insert x (set xs)"
  by (induction xs) auto

lemma js_insert_sorted:
  assumes c: "consistent cmp" and s: "sorted_wrt (before cmp R) zs" and r: "\<forall>z \<in> set zs. R x z"
  shows "sorted_wrt (before cmp R) (js_insert cmp x zs)"
  using s r
proof (induction zs)
  case Nil
  then show ?case by simp
next
  case (Cons y ys)
  show ?case
  proof (cases "cmp x y \<le> 0")
    case True
    have "before cmp R x z" if z: "z \<in> set (y # ys)" for z
    proof -
      have "cmp y z \<le> 0 \<or> z = y" using Cons.prems(1) z by (auto simp: before_def)
      then have "cmp x z \<le> 0" using True c unfolding consistent_def by blast
      moreover have "R x z" using Cons.prems(2) z by auto
      ultimately show ?thesis unfolding before_def by auto
    qed
    with True Cons.prems(1) show ?thesis by simp
  next
    case False
    then have "cmp y x < 0" using c unfolding consistent_def by auto
    then have "before cmp R y x" by (simp add: before_def)
    moreover have "sorted_wrt (before cmp R) (js_insert cmp x ys)"
      using Cons by simp
    ultimately show ?thesis using False Cons.prems(1) by (auto simp: set_js_insert)
  qed
qed

lemma js_sort_sorted:
  assumes "consistent cmp" and "sorted_wrt R xs"
  shows "sorted_wrt (before cmp R) (js_sort cmp xs)"
  using assms(2)
proof (induction xs)
  case Nil
  then show ?case by simp
next
  case (Cons x xs)
  have "set (js_sort cmp xs) = set xs" using mset_js_sort[of cmp xs] by (metis set_mset_mset)
  with Cons show ?case by (auto intro!: js_insert_sorted[OF assms(1)])
qed

lemma consistent_dist: "consistent (\<lambda>a b. js_diff_sign (f b) (f a))"
  unfolding consistent_def js_diff_sign_def by (auto split: if_splits)

lemma consistent_order_cmp: "consistent order_cmp"
  unfolding consistent_def order_cmp_def js_diff_sign_def by (auto split: if_splits)

lemma js_sort_keys:
  assumes c: "consistent cmp" and s: "sorted_wrt (\<lambda>x y. fst x < fst y) xs"
    and k: "\<And>x y. x \<in> set xs \<Longrightarrow> y \<in> set xs \<Longrightarrow>
              before cmp (\<lambda>x y. fst x < fst y) x y \<Longrightarrow> S (fst x) (fst y)"
  shows "sorted_wrt S (map fst (js_sort cmp xs))"
proof -
  have st: "set (js_sort cmp xs) = set xs" using mset_js_sort[of cmp xs] by (metis set_mset_mset)
  have "sorted_wrt (before cmp (\<lambda>x y. fst x < fst y)) (js_sort cmp xs)"
    by (rule js_sort_sorted[OF c s])
  then have "sorted_wrt (\<lambda>x y. S (fst x) (fst y)) (js_sort cmp xs)"
    by (rule sorted_wrt_mono_rel[rotated]) (use k st in blast)
  then show ?thesis by (simp add: sorted_wrt_map)
qed

lemma wf_agents_keyed:
  assumes "wf_agents ags"
  shows "sorted_wrt (\<lambda>x y. fst x < fst y) (map (\<lambda>a. (agent_id a, f a)) ags)"
proof -
  have "sorted_wrt (<) (map agent_id ags)"
    using assms unfolding wf_agents_def by (simp add: sorted_wrt_upt)
  then show ?thesis by (simp add: sorted_wrt_map)
qed

lemma wf_agents_mem:
  assumes "wf_agents ags" "a \<in> set ags"
  shows "agent_id a < length ags \<and> ags ! agent_id a = a"
proof -
  from assms(2) obtain i where i: "i < length ags" "ags ! i = a"
    by (auto simp: in_set_conv_nth)
  with wf_agents_nth[OF assms(1) i(1)] show ?thesis by simp
qed

lemma getInitOrder_mset: "mset (getInitOrder g ags) = mset (map agent_id ags)"
proof -
  have "mset (getInitOrder g ags) = image_mset fst (mset (map (\<lambda>a. (agent_id a, getDistance g (start a) (goal a))) ags))"
    unfolding getInitOrder_def by (simp add: mset_js_sort)
  then show ?thesis by (simp add: image_mset.compositionality comp_def)
qed

lemma getOrder_mset: "mset (getOrder g ags Q) = mset (map agent_id ags)"
proof -
  have "mset (getOrder g ags Q) = image_mset fst (mset (map (\<lambda>a. (agent_id a, cfg_get Q (agent_id a) = goal a,
                      getDistance g (cfg_get Q (agent_id a)) (goal a))) ags))"
    unfolding getOrder_def by (simp add: mset_js_sort)
  then show ?thesis by (simp add: image_mset.compositionality comp_def)
qed

lemma getInitOrder_sorted:
  assumes wf: "wf_agents ags"
  shows "sorted_wrt (\<lambda>a b. init_dist g ags b < init_dist g ags a \<or>
                        (init_dist g ags a = init_dist g ags b \<and> a < b))
           (getInitOrder g ags)"
  unfolding getInitOrder_def
proof (rule js_sort_keys[OF consistent_dist wf_agents_keyed[OF wf]])
  fix x y
  assume x: "x \<in> set (map (\<lambda>a. (agent_id a, getDistance g (start a) (goal a))) ags)"
    and y: "y \<in> set (map (\<lambda>a. (agent_id a, getDistance g (start a) (goal a))) ags)"
    and b: "before (\<lambda>a b. js_diff_sign (snd b) (snd a)) (\<lambda>x y. fst x < fst y) x y"
  from x wf_agents_mem[OF wf] have sx: "snd x = init_dist g ags (fst x)"
    by (auto simp: init_dist_def)
  from y wf_agents_mem[OF wf] have sy: "snd y = init_dist g ags (fst y)"
    by (auto simp: init_dist_def)
  from b show "init_dist g ags (fst y) < init_dist g ags (fst x) \<or>
        (init_dist g ags (fst x) = init_dist g ags (fst y) \<and> fst x < fst y)"
    unfolding before_def js_diff_sign_def sx sy by (auto split: if_splits)
qed

lemma getOrder_sorted:
  assumes wf: "wf_agents ags"
  shows "sorted_wrt (\<lambda>a b. (\<not> at_goal ags Q a \<and> at_goal ags Q b) \<or>
                        (at_goal ags Q a = at_goal ags Q b \<and>
                         (goal_dist g ags Q b < goal_dist g ags Q a \<or>
                          (goal_dist g ags Q a = goal_dist g ags Q b \<and> a < b))))
           (getOrder g ags Q)"
  unfolding getOrder_def
proof (rule js_sort_keys[OF consistent_order_cmp wf_agents_keyed[OF wf]])
  let ?xs = "map (\<lambda>a. (agent_id a, cfg_get Q (agent_id a) = goal a,
                      getDistance g (cfg_get Q (agent_id a)) (goal a))) ags"
  fix x y
  assume x: "x \<in> set ?xs" and y: "y \<in> set ?xs"
    and b: "before order_cmp (\<lambda>x y. fst x < fst y) x y"
  from x wf_agents_mem[OF wf] have sx: "fst (snd x) = at_goal ags Q (fst x)"
      "snd (snd x) = goal_dist g ags Q (fst x)"
    by (auto simp: at_goal_def goal_dist_def)
  from y wf_agents_mem[OF wf] have sy: "fst (snd y) = at_goal ags Q (fst y)"
      "snd (snd y) = goal_dist g ags Q (fst y)"
    by (auto simp: at_goal_def goal_dist_def)
  from b show "(\<not> at_goal ags Q (fst x) \<and> at_goal ags Q (fst y)) \<or>
        (at_goal ags Q (fst x) = at_goal ags Q (fst y) \<and>
         (goal_dist g ags Q (fst y) < goal_dist g ags Q (fst x) \<or>
          (goal_dist g ags Q (fst x) = goal_dist g ags Q (fst y) \<and> fst x < fst y)))"
    unfolding before_def order_cmp_def js_diff_sign_def sx sy by (auto split: if_splits)
qed

text \<open>
  Claim C7. With dense agent ids, \<^verbatim>\<open>getInitOrder\<close> and \<^verbatim>\<open>getOrder\<close> return a
  permutation of \<open>0..N-1\<close>. \<^verbatim>\<open>getInitOrder\<close> is in descending order of the distance
  from start to goal, equal distances in ascending order of agent id.
  \<^verbatim>\<open>getOrder(Q)\<close> has every agent that is not at its goal before every agent that is,
  each part in descending order of the distance from the position in \<open>Q\<close> to the
  goal, equal distances in ascending order of agent id.
\<close>

theorem priority_orders:
  assumes "wf_agents ags"
  shows "mset (getInitOrder g ags) = mset [0..<length ags] \<and>
         sorted_wrt (\<lambda>a b. init_dist g ags b < init_dist g ags a \<or>
                        (init_dist g ags a = init_dist g ags b \<and> a < b))
           (getInitOrder g ags) \<and>
         mset (getOrder g ags Q) = mset [0..<length ags] \<and>
         sorted_wrt (\<lambda>a b. (\<not> at_goal ags Q a \<and> at_goal ags Q b) \<or>
                        (at_goal ags Q a = at_goal ags Q b \<and>
                         (goal_dist g ags Q b < goal_dist g ags Q a \<or>
                          (goal_dist g ags Q a = goal_dist g ags Q b \<and> a < b))))
           (getOrder g ags Q)"
  using assms getInitOrder_sorted[OF assms] getOrder_sorted[OF assms]
  by (simp add: getInitOrder_mset getOrder_mset wf_agents_def)

theorem priority_orders_witness:
  "wf_agents agents_three \<and>
   getInitOrder g_line agents_three = [1, 0, 3, 2] \<and>
   mset [1, 0, 3, 2] = mset [0..<length agents_three] \<and>
   getOrder g_line agents_three [Val 1, Val 2, Val 0, Val 3] = [3, 1, 2, 0] \<and>
   mset [3, 1, 2, 0] = mset [0..<length agents_three]"
proof -
  have h: "wf_agents agents_three" by code_simp
  have i: "getInitOrder g_line agents_three = [1, 0, 3, 2]" by code_simp
  have o: "getOrder g_line agents_three [Val 1, Val 2, Val 0, Val 3] = [3, 1, 2, 0]" by code_simp
  from priority_orders[OF h, of g_line "[Val 1, Val 2, Val 0, Val 3]"] h i o
  show ?thesis by simp
qed

section \<open>Snapshots, the history and the frame of the solver\<close>

lemma heap_grows_refl: "heap_grows s s"
  by (simp add: heap_grows_def)

lemma heap_grows_trans: "heap_grows s s' \<Longrightarrow> heap_grows s' s'' \<Longrightarrow> heap_grows s s''"
  unfolding heap_grows_def by (auto intro: prefix_order.trans)

lemma clone_node_grows: "clone_node s n = (s', d) \<Longrightarrow> heap_grows s s'"
  unfolding clone_node_def heap_grows_def Let_def
  by (auto split: option.splits)

lemma fold_clone_grows:
  "fold (\<lambda>(i, node) (s', nodesMap).
             case clone_node s' node of (s'', d) \<Rightarrow> (s'', map_set nodesMap i d)) xs (s, m) = (s', m')
   \<Longrightarrow> heap_grows s s'"
proof (induction xs arbitrary: s m)
  case Nil
  then show ?case by (simp add: heap_grows_refl)
next
  case (Cons x xs)
  obtain i node where x: "x = (i, node)" by (cases x)
  obtain s1 d where c: "clone_node s node = (s1, d)" by (cases "clone_node s node")
  from Cons.prems x c have "fold (\<lambda>(i, node) (s', nodesMap).
             case clone_node s' node of (s'', d) \<Rightarrow> (s'', map_set nodesMap i d)) xs (s1, map_set m i d) = (s', m')"
    by simp
  from Cons.IH[OF this] clone_node_grows[OF c] show ?case by (rule heap_grows_trans[rotated])
qed

lemma cloneAllNodes_grows: "cloneAllNodes s = (s', m) \<Longrightarrow> heap_grows s s'"
  unfolding cloneAllNodes_def by (rule fold_clone_grows)

lemma saveHistory_frame:
  "graph (saveHistory s) = graph s \<and> agents (saveHistory s) = agents s \<and>
   state (saveHistory s) = state s \<and> hlNodeIdCounter (saveHistory s) = hlNodeIdCounter s \<and>
   prefix (trees s) (trees (saveHistory s)) \<and> prefix (queues s) (queues (saveHistory s))"
proof -
  obtain s' m where c: "cloneAllNodes s = (s', m)" by (cases "cloneAllNodes s")
  from cloneAllNodes_grows[OF c] show ?thesis
    unfolding saveHistory_def c heap_grows_def by (simp add: Let_def)
qed

lemma saveHistory_history:
  "\<exists>snap. history (saveHistory s) =
     (if length (history s) \<ge> 200 then tl (history s @ [snap]) else history s @ [snap])"
proof -
  obtain s' m where c: "cloneAllNodes s = (s', m)" by (cases "cloneAllNodes s")
  from cloneAllNodes_grows[OF c] have "history s' = history s" by (simp add: heap_grows_def)
  then show ?thesis unfolding saveHistory_def c by (auto simp: Let_def)
qed

lemma length_saveHistory:
  "length (history (saveHistory s)) = (if length (history s) \<ge> 200 then length (history s) else length (history s) + 1)"
  using saveHistory_history[of s] by auto

lemma update_node_frame:
  "graph (update_node s r f) = graph s \<and> agents (update_node s r f) = agents s \<and>
   state (update_node s r f) = state s \<and> history (update_node s r f) = history s"
  by (simp add: update_node_def)

lemma stepSelect_frame:
  "stepSelect s = Inr (b, s') \<Longrightarrow>
   graph s' = graph s \<and> agents s' = agents s \<and> history s' = history s"
  unfolding stepSelect_def Let_def
  by (auto split: if_splits option.splits)

lemma stepPopConstraint_frame:
  "stepPopConstraint s = Inr (b, s') \<Longrightarrow>
   graph s' = graph s \<and> agents s' = agents s \<and> history s' = history s"
  unfolding stepPopConstraint_def Let_def
  by (auto simp: update_node_frame split: if_splits option.splits list.splits)

lemma stepExpandTree_frame:
  "stepExpandTree s = Inr (b, s') \<Longrightarrow>
   graph s' = graph s \<and> agents s' = agents s \<and> history s' = history s"
  unfolding stepExpandTree_def Let_def
  by (auto simp: update_node_frame split: if_splits option.splits)

lemma stepGenerate_frame:
  "stepGenerate s = Inr (b, s') \<Longrightarrow>
   graph s' = graph s \<and> agents s' = agents s \<and> history s' = history s"
  unfolding stepGenerate_def
  by (auto split: if_splits option.splits)

lemma stepCheck_frame:
  "stepCheck s = Inr (b, s') \<Longrightarrow>
   graph s' = graph s \<and> agents s' = agents s \<and> history s' = history s"
  unfolding stepCheck_def Let_def
  by (auto split: if_splits option.splits)

lemma run_phase_frame:
  "run_phase s = Inr (b, s') \<Longrightarrow>
   graph s' = graph s \<and> agents s' = agents s \<and> history s' = history s"
  unfolding run_phase_def
  using stepSelect_frame stepPopConstraint_frame stepExpandTree_frame stepGenerate_frame
    stepCheck_frame
  by (cases "phase (state s)") auto

lemma after_step_frame:
  "graph (after_call CallStep s) = graph s \<and> agents (after_call CallStep s) = agents s \<and>
   (history (after_call CallStep s) = history s \<or>
    history (after_call CallStep s) = history (saveHistory s))"
proof (cases "status (state s) = Running")
  case False
  then show ?thesis by (simp add: step_def)
next
  case True
  let ?s1 = "saveHistory s"
  let ?s2 = "?s1\<lparr>state := (state ?s1)\<lparr>stepNumber := stepNumber (state ?s1) + 1\<rparr>\<rparr>"
  have f2: "graph ?s2 = graph s \<and> agents ?s2 = agents s \<and> history ?s2 = history ?s1"
    using saveHistory_frame[of s] by simp
  show ?thesis
  proof (cases "run_phase ?s2")
    case (Inl e)
    with True f2 show ?thesis by (simp add: step_def Let_def)
  next
    case (Inr r)
    obtain b s' where r: "r = (b, s')" by (cases r)
    from run_phase_frame[OF Inr[unfolded r]] f2 True Inr r show ?thesis
      by (simp add: step_def Let_def)
  qed
qed

lemma restoreFromSnapshot_frame:
  "graph (restoreFromSnapshot s snap) = graph s \<and> agents (restoreFromSnapshot s snap) = agents s \<and>
   history (restoreFromSnapshot s snap) = history s \<and>
   trees (restoreFromSnapshot s snap) = trees s \<and> queues (restoreFromSnapshot s snap) = queues s"
  by (simp add: restoreFromSnapshot_def Let_def)

lemma restoreFromSnapshot_fields:
  "phase (state (restoreFromSnapshot s snap)) = snap_phase snap \<and>
   status (state (restoreFromSnapshot s snap)) = snap_status snap \<and>
   stepNumber (state (restoreFromSnapshot s snap)) = snap_stepNumber snap \<and>
   generatedConfig (state (restoreFromSnapshot s snap)) = snap_generatedConfig snap \<and>
   solution (state (restoreFromSnapshot s snap)) = snap_solution snap \<and>
   nodesGenerated (state (restoreFromSnapshot s snap)) = snap_nodesGenerated snap \<and>
   configurationsExplored (state (restoreFromSnapshot s snap)) = snap_configurationsExplored snap"
  by (simp add: restoreFromSnapshot_def Let_def)

lemma initialize_frame:
  "graph (initialize s) = graph s \<and> agents (initialize s) = agents s"
  unfolding initialize_def Let_def using saveHistory_frame by simp

lemma initialize_history: "length (history (initialize s)) = 1"
  unfolding initialize_def Let_def by (simp add: length_saveHistory)

lemma history_ok_saveHistory: "length (history s) \<le> 200 \<Longrightarrow> history_ok (saveHistory s)"
  by (simp add: history_ok_def length_saveHistory)

lemma history_ok_call: "history_ok s \<Longrightarrow> history_ok (after_call c s)"
proof (cases c)
  case CallStep
  assume ok: "history_ok s"
  from after_step_frame[of s] ok history_ok_saveHistory[of s] show ?thesis
    unfolding CallStep history_ok_def by auto
next
  case CallStepBack
  assume ok: "history_ok s"
  then show ?thesis unfolding CallStepBack history_ok_def
    by (auto simp: stepBack_def Let_def restoreFromSnapshot_frame)
next
  case CallReset
  then show ?thesis by (simp add: history_ok_def reset_def initialize_history)
next
  case CallInitialize
  then show ?thesis by (simp add: history_ok_def initialize_history)
qed

lemma history_ok_calls: "history_ok s \<Longrightarrow> history_ok (after_calls cs s)"
  unfolding after_calls_def
  by (induction cs arbitrary: s) (auto simp: history_ok_call)

lemma initialize_state:
  "state (initialize s) =
     \<lparr>open_nodes = [HLNode 0 (map start (agents s)) 0 (Some 0) (getInitOrder (graph s) (agents s)) None],
      explored = [(hash (map start (agents s)),
                   HLNode 0 (map start (agents s)) 0 (Some 0) (getInitOrder (graph s) (agents s)) None)],
      currentHighLevelNode =
        Some (HLNode 0 (map start (agents s)) 0 (Some 0) (getInitOrder (graph s) (agents s)) None),
      currentLowLevelNode = None, generatedConfig = None, stepNumber = 0, phase = Select,
      status = Running, solution = None, nodesGenerated = 1, configurationsExplored = 1\<rparr>"
  unfolding initialize_def Let_def using saveHistory_frame by simp

text \<open>
  Claim C8. When every agent starts at its goal, the first \<^verbatim>\<open>step()\<close> after
  \<^verbatim>\<open>initialize()\<close> returns \<open>false\<close> in the select phase with status \<open>solved\<close>, and the
  solution path is the start configuration alone.
\<close>

theorem already_solved:
  assumes "map start (agents s) = map goal (agents s)"
  shows "\<exists>s'. step (initialize s) = Inr (False, s') \<and> status (state s') = Solved \<and>
              phase (state s') = Select \<and> solution (state s') = Some [map start (agents s)]"
proof -
  let ?i = "initialize s"
  let ?s1 = "saveHistory ?i"
  let ?s2 = "?s1\<lparr>state := (state ?s1)\<lparr>stepNumber := stepNumber (state ?s1) + 1\<rparr>\<rparr>"
  have st: "state ?s1 = state ?i" and ag: "agents ?s1 = agents s"
    using saveHistory_frame[of ?i] initialize_frame[of s] by simp_all
  have run: "status (state ?i) = Running" by (simp add: initialize_state)
  have sel: "\<exists>s'. stepSelect ?s2 = Inr (False, s') \<and> status (state s') = Solved \<and>
              phase (state s') = Select \<and> solution (state s') = Some [map start (agents s)]"
    unfolding stepSelect_def Let_def
    by (simp add: st ag initialize_state equals_def assms backtrack_def)
  have "phase (state ?s2) = Select" by (simp add: st initialize_state)
  then have "run_phase ?s2 = stepSelect ?s2" by (simp add: run_phase_def)
  with sel run show ?thesis unfolding step_def Let_def by auto
qed

theorem already_solved_witness:
  "map start (agents (new_lacam g_line agents_home)) = map goal (agents (new_lacam g_line agents_home)) \<and>
   (\<exists>s'. step (initialize (new_lacam g_line agents_home)) = Inr (False, s') \<and>
         status (state s') = Solved \<and> phase (state s') = Select \<and>
         solution (state s') = Some [[Val 1, Val 2]])"
proof -
  have a: "agents (new_lacam g_line agents_home) = agents_home"
    by (simp add: new_lacam_def initialize_frame)
  have h: "map start (agents (new_lacam g_line agents_home)) = map goal (agents (new_lacam g_line agents_home))"
    unfolding a by (simp add: agents_home_def)
  from already_solved[OF h] h show ?thesis unfolding a by (simp add: agents_home_def)
qed

text \<open>
  Claim C10. \<^verbatim>\<open>initialize\<close>, \<^verbatim>\<open>step\<close> (whether it returns or throws), \<^verbatim>\<open>stepBack\<close> and
  \<^verbatim>\<open>reset\<close> leave the graph (vertices, edges, adjacency index) and the agents
  (ids, starts, goals) as they were.
\<close>

theorem solver_frame:
  "graph (initialize s) = graph s \<and> agents (initialize s) = agents s \<and>
   graph (after_call CallStep s) = graph s \<and> agents (after_call CallStep s) = agents s \<and>
   graph (snd (stepBack s)) = graph s \<and> agents (snd (stepBack s)) = agents s \<and>
   graph (reset s) = graph s \<and> agents (reset s) = agents s"
  using after_step_frame[of s]
  by (simp add: initialize_frame reset_def stepBack_def Let_def restoreFromSnapshot_frame)

text \<open>
  What holds of \<^verbatim>\<open>stepBack\<close> and the history: \<^verbatim>\<open>stepBack()\<close> returns \<open>true\<close> exactly
  when the history has more than one entry, and then drops the last entry and
  restores the entry before it; otherwise it returns \<open>false\<close> and changes nothing, as
  right after \<^verbatim>\<open>initialize()\<close>. Whatever calls follow \<^verbatim>\<open>initialize()\<close>, the history never
  holds more than 200 entries, and \<^verbatim>\<open>saveHistory\<close> on a full history drops the oldest.
\<close>

lemma stepBack_flag_and_history_bound:
  "stepBack s =
     (if 1 < length (history s)
      then (True, restoreFromSnapshot (s\<lparr>history := butlast (history s)\<rparr>)
                    (history s ! (length (history s) - 2)))
      else (False, s)) \<and>
   stepBack (initialize s) = (False, initialize s) \<and>
   length (history (after_calls cs (initialize s))) \<le> 200 \<and>
   history (saveHistory s) =
     (if length (history s) < 200 then history s @ [make_snapshot s (snd (cloneAllNodes s))]
      else tl (history s) @ [make_snapshot s (snd (cloneAllNodes s))])"
proof -
  have a: "stepBack s =
     (if 1 < length (history s)
      then (True, restoreFromSnapshot (s\<lparr>history := butlast (history s)\<rparr>)
                    (history s ! (length (history s) - 2)))
      else (False, s))"
  proof (cases "1 < length (history s)")
    case True
    then have ne: "butlast (history s) \<noteq> []" by (cases "history s") auto
    have i: "length (butlast (history s)) - 1 = length (history s) - 2" by simp
    have l: "length (history s) - 2 < length (butlast (history s))" using True by simp
    have "last (butlast (history s)) = butlast (history s) ! (length (history s) - 2)"
      using last_conv_nth[OF ne] i by simp
    also have "\<dots> = history s ! (length (history s) - 2)" by (rule nth_butlast[OF l])
    finally have "last (butlast (history s)) = history s ! (length (history s) - 2)" .
    with True show ?thesis by (simp add: stepBack_def Let_def)
  next
    case False
    then show ?thesis by (simp add: stepBack_def)
  qed
  have c: "stepBack (initialize s) = (False, initialize s)"
    by (simp add: stepBack_def initialize_history)
  have "history_ok (initialize s)" by (simp add: history_ok_def initialize_history)
  from history_ok_calls[OF this] have d: "length (history (after_calls cs (initialize s))) \<le> 200"
    by (simp add: history_ok_def)
  have e: "history (saveHistory s) =
     (if length (history s) < 200 then history s @ [make_snapshot s (snd (cloneAllNodes s))]
      else tl (history s) @ [make_snapshot s (snd (cloneAllNodes s))])"
  proof -
    obtain s' m where cl: "cloneAllNodes s = (s', m)" by (cases "cloneAllNodes s")
    from cloneAllNodes_grows[OF cl] have "history s' = history s" by (simp add: heap_grows_def)
    then show ?thesis unfolding saveHistory_def cl by (cases "history s") (auto simp: Let_def)
  qed
  from a c d e show ?thesis by simp
qed

text \<open>
  Claim C9 fails on the code in its first part. \<^verbatim>\<open>step()\<close> saves its snapshot before
  it acts, so the last entry of the history is the state before the last step,
  not the current state; \<^verbatim>\<open>stepBack()\<close> pops it (\<^verbatim>\<open>// Remove current state\<close>) and
  restores the entry below, the state before the last two steps. On the line
  a - b - c with one agent from a to c: after \<^verbatim>\<open>initialize(); step(); step()\<close> the
  solver is in phase \<^verbatim>\<open>expand_tree\<close> with step number 2, the state before that step
  was in phase \<^verbatim>\<open>pop_constraint\<close> with step number 1, and \<^verbatim>\<open>stepBack()\<close> returns \<open>true\<close>
  and leaves the solver in phase \<^verbatim>\<open>select\<close> with step number 0 and no current
  low-level node: the state after \<^verbatim>\<open>initialize()\<close>.
\<close>

theorem stepBack_skips_a_state:
  "(let s0 = new_lacam g_line agents_one;
        s1 = after_calls [CallStep] s0;
        s2 = after_calls [CallStep, CallStep] s0;
        s3 = snd (stepBack s2)
    in (phase (state s0), stepNumber (state s0), currentLowLevelNode (state s0),
        phase (state s1), stepNumber (state s1), currentLowLevelNode (state s1),
        phase (state s2), stepNumber (state s2), currentLowLevelNode (state s2),
        length (history s2), fst (stepBack s2),
        phase (state s3), stepNumber (state s3), currentLowLevelNode (state s3)))
   = (Select, 0, None,
      PopConstraint, 1, None,
      ExpandTree, 2, Some (0, []),
      3, True,
      Select, 0, None)"
  by code_simp

text \<open>
  Claim C4 fails on the code. \<^verbatim>\<open>restoreFromSnapshot\<close> puts the snapshot's own \<^verbatim>\<open>tree\<close>
  array and \<^verbatim>\<open>treeRoot\<close> into the live node, so the next \<^verbatim>\<open>step()\<close> changes the
  snapshot that stays in the history. On the line a - b - c with one agent from a
  to c: after \<^verbatim>\<open>initialize()\<close> and one \<^verbatim>\<open>step()\<close> the solver is in phase
  \<^verbatim>\<open>pop_constraint\<close> with step number 1, and the next \<^verbatim>\<open>step()\<close> returns \<open>true\<close> in
  phase \<^verbatim>\<open>expand_tree\<close>. After \<^verbatim>\<open>step(); step(); step(); stepBack(); step(); stepBack()\<close>
  the snapshot of that same state has been restored twice, the solver is again
  in phase \<^verbatim>\<open>pop_constraint\<close> with step number 1, but the work queue of the restored
  node is empty and the next \<^verbatim>\<open>step()\<close> throws.
\<close>

theorem restore_shares_queue_with_snapshot:
  "(let s = after_calls [CallStep] (new_lacam g_line agents_one)
    in (phase (state s), stepNumber (state s),
        case step s of Inl (e, s') \<Rightarrow> Inl e | Inr (b, s') \<Rightarrow> Inr (b, phase (state s'))))
     = (PopConstraint, 1, Inr (True, ExpandTree)) \<and>
   (let s = after_calls [CallStep, CallStep, CallStep, CallStepBack, CallStep, CallStepBack]
              (new_lacam g_line agents_one)
    in (phase (state s), stepNumber (state s),
        case step s of Inl (e, s') \<Rightarrow> Inl e | Inr (b, s') \<Rightarrow> Inr (b, phase (state s'))))
     = (PopConstraint, 1, Inl TypeError)"
  by code_simp

section \<open>The depth of the constraint trees\<close>


lemma depth_ok_depth: "depth_ok N d n \<Longrightarrow> depth n = d \<and> d \<le> N"
  by (cases n) simp

lemma depth_ok_child:
  "depth_ok N d n \<Longrightarrow> k < length (children n) \<Longrightarrow> depth_ok N (Suc d) (children n ! k)"
  by (cases n) simp

lemma depth_ok_subtree:
  "depth_ok N d t \<Longrightarrow> subtree t p = Some c \<Longrightarrow> depth_ok N (d + length p) c"
proof (induction p arbitrary: t d)
  case Nil
  then show ?case by simp
next
  case (Cons k p)
  from Cons.prems(2) have k: "k < length (children t)" and s: "subtree (children t ! k) p = Some c"
    by (auto split: if_splits)
  from Cons.IH[OF depth_ok_child[OF Cons.prems(1) k] s] show ?case by simp
qed


lemma trees_ok_append:
  "trees_ok s \<Longrightarrow> agents s' = agents s \<Longrightarrow> trees s' = trees s @ ts \<Longrightarrow>
   \<forall>t \<in> set ts. depth_ok (length (agents s)) 0 t \<Longrightarrow> trees_ok s'"
  unfolding trees_ok_def by auto




lemma derefD:
  "deref s C = Some c \<Longrightarrow> fst C < length (trees s) \<and> subtree (trees s ! fst C) (snd C) = Some c"
  by (cases "fst C < length (trees s)") (simp_all add: deref_def get_tree_def)



lemma trees_ok_cong:
  "trees_ok s \<Longrightarrow> trees s' = trees s \<Longrightarrow> agents s' = agents s \<Longrightarrow> trees_ok s'"
  by (simp add: trees_ok_def)











lemma after_calls_agents: "agents (after_calls cs s) = agents s"
  unfolding after_calls_def
proof (induction cs arbitrary: s)
  case Nil
  then show ?case by simp
next
  case (Cons c cs)
  have "agents (after_call c s) = agents s"
    using after_step_frame[of s] initialize_frame[of s]
    by (cases c) (simp_all add: reset_def stepBack_def Let_def restoreFromSnapshot_frame)
  with Cons show ?case by simp
qed





section \<open>Soundness of the solution path\<close>

text \<open>
  The invariant of a run of \<^verbatim>\<open>step()\<close>: every node of Open, and the current node, has a
  valid chain of parents, a configuration without \<^verbatim>\<open>undefined\<close>, an order that is a
  list of agent ids, and a constraint tree whose constraints are moves in the node's
  configuration; the nodes have trees and queues of their own.
\<close>

lemma node_inv_grow:
  assumes "node_inv s n" "graph s' = graph s" "agents s' = agents s"
    "prefix (trees s) (trees s')" "prefix (queues s) (queues s')"
  shows "node_inv s' n"
proof -
  from assms(4) obtain ts where ts: "trees s' = trees s @ ts" by (auto simp: prefix_def)
  from assms(5) obtain qs where qs: "queues s' = queues s @ qs" by (auto simp: prefix_def)
  from assms(1) show ?thesis
    unfolding node_inv_def assms(2,3) ts qs by (auto simp: nth_append)
qed

lemma search_inv_grow:
  assumes "search_inv s" "graph s' = graph s" "agents s' = agents s" "state s' = state s"
    "prefix (trees s) (trees s')" "prefix (queues s) (queues s')"
  shows "search_inv s'"
proof -
  have l: "live s' = live s" by (simp add: live_def assms(4))
  have p: "phase_ok s' = phase_ok s" by (simp add: phase_ok_def assms)
  have so: "solved_ok s' = solved_ok s" by (simp add: solved_ok_def assms)
  from assms(1) node_inv_grow[OF _ assms(2,3,5,6)] show ?thesis
    unfolding search_inv_def l p so assms(4) by blast
qed

lemma search_inv_saveHistory:
  assumes "search_inv s"
  shows "search_inv (saveHistory s)"
  using saveHistory_frame[of s] by (intro search_inv_grow[OF assms]) simp_all

lemma search_inv_cong:
  assumes "graph s' = graph s" "agents s' = agents s" "trees s' = trees s" "queues s' = queues s"
    "open_nodes (state s') = open_nodes (state s)"
    "currentHighLevelNode (state s') = currentHighLevelNode (state s)"
    "currentLowLevelNode (state s') = currentLowLevelNode (state s)"
    "generatedConfig (state s') = generatedConfig (state s)"
    "phase (state s') = phase (state s)" "status (state s') = status (state s)"
    "solution (state s') = solution (state s)"
  shows "search_inv s' = search_inv s"
proof -
  have l: "live s' = live s" by (simp add: live_def assms)
  have n: "node_inv s' = node_inv s" by (simp add: node_inv_def assms fun_eq_iff)
  have p: "phase_ok s' = phase_ok s" by (simp add: phase_ok_def assms)
  have so: "solved_ok s' = solved_ok s" by (simp add: solved_ok_def assms)
  show ?thesis unfolding search_inv_def l n p so assms ..
qed


lemma search_inv_same_heap:
  assumes "search_inv s" "graph s' = graph s" "agents s' = agents s" "trees s' = trees s"
    "queues s' = queues s" "live s' \<subseteq> live s" "currentHighLevelNode (state s') \<noteq> None"
    "phase_ok s'" "solved_ok s'"
  shows "search_inv s'"
proof -
  have n: "node_inv s' = node_inv s" by (simp add: node_inv_def assms fun_eq_iff)
  from assms(1,6,7,8,9) show ?thesis unfolding search_inv_def n by blast
qed

lemma solved_ok_cong:
  "graph s' = graph s \<Longrightarrow> agents s' = agents s \<Longrightarrow> status (state s') = status (state s) \<Longrightarrow>
   solution (state s') = solution (state s) \<Longrightarrow> solved_ok s' = solved_ok s"
  by (simp add: solved_ok_def)

lemma last_in_live: "open_nodes (state s) \<noteq> [] \<Longrightarrow> last (open_nodes (state s)) \<in> live s"
  by (simp add: live_def)

lemma stepSelect_inv:
  assumes inv: "search_inv s" and ph: "phase (state s) = Select" and st: "stepSelect s = Inr (b, s')"
  shows "search_inv s'"
proof (cases "open_nodes (state s) = []")
  case True
  with st have s': "s' = s\<lparr>state := (state s)\<lparr>status := NoSolution\<rparr>\<rparr>"
    by (simp add: stepSelect_def)
  show ?thesis
  proof (rule search_inv_same_heap[OF inv])
    show "live s' \<subseteq> live s" by (simp add: s' live_def)
    show "currentHighLevelNode (state s') \<noteq> None" using inv by (simp add: s' search_inv_def)
    show "phase_ok s'" using ph by (simp add: s' phase_ok_def)
    show "solved_ok s'" by (simp add: s' solved_ok_def)
  qed (simp_all add: s')
next
  case False
  let ?N = "last (open_nodes (state s))"
  have Nl: "?N \<in> live s" using False by (rule last_in_live)
  have Ninv: "node_inv s ?N" using inv Nl by (simp add: search_inv_def)
  have frame: "graph s' = graph s" "agents s' = agents s" "trees s' = trees s" "queues s' = queues s"
    using st unfolding stepSelect_def Let_def
    by (auto split: if_splits option.splits)
  have cur: "currentHighLevelNode (state s') = Some ?N"
    using st False unfolding stepSelect_def Let_def
    by (auto split: if_splits option.splits)
  have opn: "set (open_nodes (state s')) \<subseteq> set (open_nodes (state s))"
    using st False unfolding stepSelect_def Let_def
    by (auto split: if_splits option.splits dest: in_set_butlastD)
  have php: "phase (state s') = Select \<or> phase (state s') = PopConstraint"
    using st False ph unfolding stepSelect_def Let_def
    by (auto split: if_splits option.splits)
  have sol: "solved_ok s'"
  proof (cases "equals (config ?N) (map goal (agents s))")
    case True
    with st False have "solution (state s') = Some (backtrack ?N)"
      unfolding stepSelect_def Let_def by auto
    with True Ninv frame show ?thesis unfolding solved_ok_def node_inv_def by auto
  next
    case eq: False
    with st False have "status (state s') = status (state s)" "solution (state s') = solution (state s)"
      unfolding stepSelect_def Let_def by (auto split: if_splits option.splits)
    with inv frame show ?thesis using solved_ok_cong[of s' s] by (simp add: search_inv_def)
  qed
  show ?thesis
  proof (rule search_inv_same_heap[OF inv frame])
    show "live s' \<subseteq> live s" using opn cur Nl unfolding live_def by auto
    show "currentHighLevelNode (state s') \<noteq> None" using cur by simp
    show "phase_ok s'" using php unfolding phase_ok_def by auto
    show "solved_ok s'" by (rule sol)
  qed
qed

lemma tree_ok_update_at:
  assumes "tree_ok g Q t" and "\<And>c. tree_ok g Q c \<Longrightarrow> tree_ok g Q (f c)"
  shows "tree_ok g Q (update_at f t p)"
  using assms(1)
proof (induction p arbitrary: t)
  case Nil
  then show ?case by (simp add: assms(2))
next
  case (Cons k p)
  obtain i w v cs dp se sl where t: "t = LLNode i w v cs dp se sl" by (cases t)
  show ?case
  proof (cases "k < length cs")
    case False
    with Cons.prems t show ?thesis by simp
  next
    case True
    have "tree_ok g Q (cs ! k)" using Cons.prems True t by simp
    then have "tree_ok g Q (update_at f (cs ! k) p)" by (rule Cons.IH)
    moreover have "\<forall>c \<in> set cs. tree_ok g Q c" using Cons.prems t by simp
    ultimately have "\<forall>c \<in> set (cs[k := update_at f (cs ! k) p]). tree_ok g Q c"
      using set_update_subset_insert[of cs k "update_at f (cs ! k) p"] by blast
    with Cons.prems True t show ?thesis by simp
  qed
qed

lemma tree_ok_mark_popped: "tree_ok g Q c \<Longrightarrow> tree_ok g Q (mark_popped c)"
  by (cases c) simp

lemma tree_ok_add_children:
  "tree_ok g Q c \<Longrightarrow> \<forall>n \<in> set new. tree_ok g Q n \<Longrightarrow> tree_ok g Q (add_children new c)"
  by (cases c) auto

lemma tree_ok_subtree: "tree_ok g Q t \<Longrightarrow> subtree t p = Some n \<Longrightarrow> tree_ok g Q n"
proof (induction p arbitrary: t)
  case Nil
  then show ?case by simp
next
  case (Cons k p)
  obtain i w v cs dp se sl where t: "t = LLNode i w v cs dp se sl" by (cases t)
  from Cons.prems t have k: "k < length cs" and s: "subtree (cs ! k) p = Some n"
    by (auto split: if_splits)
  from Cons.prems(1) t k have "tree_ok g Q (cs ! k)" by simp
  from Cons.IH[OF this s] show ?case .
qed

text \<open>A step that changes only the tree and the queue of the current node.\<close>

lemma search_inv_update_current:
  assumes inv: "search_inv s"
    and cur: "currentHighLevelNode (state s) = Some N" and r: "treeRoot N = Some r"
    and fr: "graph s' = graph s" "agents s' = agents s"
    and lv: "live s' = live s"
    and ts: "trees s' = (trees s)[r := t']" and tok: "tree_ok (graph s) (config N) t'"
    and qs: "queues s' = (queues s)[tree N := q']" and qok: "\<forall>x \<in> set q'. fst x = r"
    and po: "phase_ok s'" and so: "solved_ok s'"
    and c': "currentHighLevelNode (state s') \<noteq> None"
  shows "search_inv s'"
proof -
  have Nl: "N \<in> live s" using cur by (simp add: live_def)
  have dist: "\<And>n. n \<in> live s \<Longrightarrow> tree n = tree N \<or> treeRoot n = treeRoot N \<Longrightarrow> n = N"
    using inv Nl unfolding search_inv_def by blast
  have "node_inv s' n" if n: "n \<in> live s" for n
  proof -
    from inv n have ni: "node_inv s n" by (simp add: search_inv_def)
    then obtain rn where rn: "treeRoot n = Some rn" "rn < length (trees s)"
      "tree_ok (graph s) (config n) (trees s ! rn)" "tree n < length (queues s)"
      "\<forall>x \<in> set (queues s ! tree n). fst x = rn"
      unfolding node_inv_def by blast
    show ?thesis
    proof (cases "n = N")
      case True
      with rn r have "rn = r" by simp
      with rn True tok qok ni show ?thesis
        unfolding node_inv_def fr ts qs by simp
    next
      case False
      with dist[OF n] have "tree n \<noteq> tree N" "treeRoot n \<noteq> treeRoot N" by auto
      with rn r have "rn \<noteq> r" by auto
      with \<open>tree n \<noteq> tree N\<close> rn ni show ?thesis
        unfolding node_inv_def fr ts qs by simp
    qed
  qed
  with inv po so c' show ?thesis unfolding search_inv_def lv by blast
qed

lemma stepPopConstraint_inv:
  assumes inv: "search_inv s" and st: "stepPopConstraint s = Inr (b, s')"
  shows "search_inv s'"
proof -
  from st obtain N C rest c where
    cur: "currentHighLevelNode (state s) = Some N" and
    q: "get_queue s (tree N) = Some (C # rest)" and d: "deref s C = Some c" and
    s': "s' = (update_node (s\<lparr>queues := (queues s)[tree N := rest]\<rparr>) C mark_popped)
               \<lparr>state := (state (update_node (s\<lparr>queues := (queues s)[tree N := rest]\<rparr>) C mark_popped))
                   \<lparr>currentLowLevelNode := Some C, phase := ExpandTree\<rparr>\<rparr>"
    unfolding stepPopConstraint_def Let_def
    by (auto split: option.splits list.splits)
  have Nl: "N \<in> live s" using cur by (simp add: live_def)
  with inv have "node_inv s N" by (simp add: search_inv_def)
  then obtain r where r: "treeRoot N = Some r" "r < length (trees s)"
      "tree_ok (graph s) (config N) (trees s ! r)" "tree N < length (queues s)"
      "\<forall>x \<in> set (queues s ! tree N). fst x = r"
    unfolding node_inv_def by blast
  from q have qq: "queues s ! tree N = C # rest" by (simp add: get_queue_def split: if_splits)
  with r(5) have C: "fst C = r" and rest: "\<forall>x \<in> set rest. fst x = r" by simp_all
  have st': "state s' = (state s)\<lparr>currentLowLevelNode := Some C, phase := ExpandTree\<rparr>"
    unfolding s' by (simp add: update_node_def)
  show ?thesis
  proof (rule search_inv_update_current[OF inv cur r(1)])
    show "graph s' = graph s" "agents s' = agents s" unfolding s' by (simp_all add: update_node_def)
    show "live s' = live s" by (simp add: live_def st')
    show "trees s' = (trees s)[r := update_at mark_popped (trees s ! r) (snd C)]"
      unfolding s' using C r(2) by (simp add: update_node_def)
    show "tree_ok (graph s) (config N) (update_at mark_popped (trees s ! r) (snd C))"
      by (rule tree_ok_update_at[OF r(3)]) (rule tree_ok_mark_popped)
    show "queues s' = (queues s)[tree N := rest]" unfolding s' by (simp add: update_node_def)
    show "\<forall>x \<in> set rest. fst x = r" by (rule rest)
    show "phase_ok s'" unfolding phase_ok_def st' using cur r(1) C by simp
    show "solved_ok s'"
      using inv solved_ok_cong[of s' s] unfolding search_inv_def
      by (simp add: st' s' update_node_def)
    show "currentHighLevelNode (state s') \<noteq> None" using cur by (simp add: st')
  qed
qed

lemma default_null_id: "v \<noteq> Undefined \<Longrightarrow> default_null v = v"
  by (cases v) simp_all

lemma cfg_ok_get: "cfg_ok N Q \<Longrightarrow> a < N \<Longrightarrow> cfg_get Q a = Q ! a \<and> Q ! a \<noteq> Undefined"
  unfolding cfg_ok_def cfg_get_def by (auto simp: js_get_def dest: nth_mem)

lemma stepExpandTree_inv:
  assumes inv: "search_inv s" and ph: "phase (state s) = ExpandTree"
    and st: "stepExpandTree s = Inr (b, s')"
  shows "search_inv s'"
proof -
  from st obtain C c where C: "currentLowLevelNode (state s) = Some C" and d: "deref s C = Some c"
    unfolding stepExpandTree_def by (auto split: option.splits)
  from inv obtain N where cur: "currentHighLevelNode (state s) = Some N"
    unfolding search_inv_def by auto
  from inv cur ph C have rC: "treeRoot N = Some (fst C)"
    unfolding search_inv_def phase_ok_def by simp
  have Nl: "N \<in> live s" using cur by (simp add: live_def)
  with inv have ni: "node_inv s N" by (simp add: search_inv_def)
  with rC have r: "fst C < length (trees s)"
      "tree_ok (graph s) (config N) (trees s ! fst C)" "tree N < length (queues s)"
      "\<forall>x \<in> set (queues s ! tree N). fst x = fst C"
    and ok: "cfg_ok (length (agents s)) (config N)" "length (order N) = length (agents s)"
      "set (order N) \<subseteq> {0..<length (agents s)}"
    unfolding node_inv_def by auto
  show ?thesis
  proof (cases "depth c < length (agents s)")
    case False
    with st C d have s': "s' = s\<lparr>state := (state s)\<lparr>phase := Generate\<rparr>\<rparr>"
      unfolding stepExpandTree_def by simp
    show ?thesis
    proof (rule search_inv_same_heap[OF inv])
      show "live s' \<subseteq> live s" by (simp add: s' live_def)
      show "currentHighLevelNode (state s') \<noteq> None" using cur by (simp add: s')
      show "phase_ok s'" using cur rC C by (simp add: s' phase_ok_def)
      show "solved_ok s'" using inv solved_ok_cong[of s' s] by (simp add: s' search_inv_def)
    qed (simp_all add: s')
  next
    case True
    let ?x = "order N ! depth c"
    have "?x \<in> set (order N)" using True ok(2) by simp
    with ok(3) have xlt: "?x < length (agents s)" by auto
    have x: "order_at (order N) (depth c) = Val ?x" "?x < length (agents s)"
      using True ok(2) xlt by (simp_all add: order_at_def js_get_def)
    from cfg_ok_get[OF ok(1) x(2)] have cv: "cfg_get_js (config N) (Val ?x) = config N ! ?x"
      "config N ! ?x \<noteq> Undefined" "cfg_get (config N) ?x = config N ! ?x" by simp_all
    let ?mv = "config N ! ?x # map Val (getNeighbors (graph s) (config N ! ?x))"
    let ?news = "map (\<lambda>(k, vertex). LLNode (llNodeIdCounter s + k) (Val ?x) (default_null vertex) []
                                       (depth c + 1) False False)
                 (List.enumerate 0 ?mv)"
    let ?refs = "map (\<lambda>k. (fst C, snd C @ [length (children c) + k])) [0..<length ?mv]"
    let ?q = "queues s ! tree N"
    let ?s1 = "update_node s C (add_children ?news)"
    let ?s2 = "?s1\<lparr>queues := (queues ?s1)[tree N := ?q @ ?refs],
                    llNodeIdCounter := llNodeIdCounter s + length ?mv\<rparr>"
    have gq: "get_queue s (tree N) = Some ?q" using r(3) by (simp add: get_queue_def)
    have s': "s' = ?s2\<lparr>state := (state ?s2)\<lparr>phase := Generate\<rparr>\<rparr>"
      using st C d True cur gq unfolding stepExpandTree_def
      by (simp add: Let_def x cv)
    have st': "state s' = (state s)\<lparr>phase := Generate\<rparr>"
      unfolding s' by (simp add: update_node_def)
    let ?G = "\<lambda>kv. LLNode (llNodeIdCounter s + fst kv) (Val ?x) (default_null (snd kv)) []
                      (depth c + 1) False False"
    have e: "?news = map ?G (List.enumerate 0 ?mv)"
      by (simp add: case_prod_beta)
    have newok: "\<forall>n \<in> set ?news. tree_ok (graph s) (config N) n"
    proof
      fix n assume "n \<in> set ?news"
      then have "n \<in> ?G ` set (List.enumerate 0 ?mv)" unfolding e by (simp only: set_map)
      then obtain kv where kv: "kv \<in> set (List.enumerate 0 ?mv)" and n: "n = ?G kv"
        by (rule imageE)
      from kv have "snd kv \<in> set (map snd (List.enumerate 0 ?mv))" by (simp only: set_map image_eqI)
      then have v: "snd kv \<in> set ?mv" by (simp only: map_snd_enumerate)
      with cv(2) have "snd kv \<noteq> Undefined" by auto
      then have "default_null (snd kv) = snd kv" by (rule default_null_id)
      moreover from v have "snd kv \<in> moves (graph s) (cfg_get (config N) ?x)"
        unfolding cv(3) moves_def by auto
      ultimately show "tree_ok (graph s) (config N) n" unfolding n by simp
    qed
    show ?thesis
    proof (rule search_inv_update_current[OF inv cur rC])
      show "graph s' = graph s" "agents s' = agents s" unfolding s' by (simp_all add: update_node_def)
      show "live s' = live s" by (simp add: live_def st')
      show "trees s' = (trees s)[fst C := update_at (add_children ?news) (trees s ! fst C) (snd C)]"
        unfolding s' using r(1) by (simp add: update_node_def)
      show "tree_ok (graph s) (config N) (update_at (add_children ?news) (trees s ! fst C) (snd C))"
        by (rule tree_ok_update_at[OF r(2)]) (rule tree_ok_add_children[OF _ newok])
      show "queues s' = (queues s)[tree N := ?q @ ?refs]" unfolding s' by (simp add: update_node_def)
      show "\<forall>x \<in> set (?q @ ?refs). fst x = fst C" using r(4) by auto
      show "phase_ok s'" unfolding phase_ok_def st' using cur rC C by simp
      show "solved_ok s'"
        using inv solved_ok_cong[of s' s] unfolding search_inv_def
        by (simp add: st' s' update_node_def)
      show "currentHighLevelNode (state s') \<noteq> None" using cur by (simp add: st')
    qed
  qed
qed

lemma constraints_up_valid:
  "tree_ok g Q t \<Longrightarrow> Kvalid g Q K0 \<Longrightarrow> constraints_up t p K0 = Some K \<Longrightarrow> Kvalid g Q K"
proof (induction t p K0 rule: constraints_up.induct)
  case (1 rt p K0)
  from "1.prems"(3) obtain n where n: "subtree rt p = Some n"
    by (subst (asm) constraints_up.simps) (auto split: option.splits)
  have nok: "tree_ok g Q n" by (rule tree_ok_subtree[OF "1.prems"(1) n])
  have kv: "Kvalid g Q (K0(who n \<mapsto> wher n))"
    using "1.prems"(2) nok unfolding Kvalid_def by (cases n) auto
  show ?case
  proof (cases "who n = Null")
    case True
    with "1.prems"(3) n have "K = K0" by (subst (asm) constraints_up.simps) simp
    with "1.prems"(2) show ?thesis by simp
  next
    case False
    show ?thesis
    proof (cases "p = []")
      case True
      with "1.prems"(3) n False have "K = K0(who n \<mapsto> wher n)"
        by (subst (asm) constraints_up.simps) simp
      with kv show ?thesis by (simp only:)
    next
      case pne: False
      with "1.prems"(3) n False have "constraints_up rt (butlast p) (K0(who n \<mapsto> wher n)) = Some K"
        by (subst (asm) constraints_up.simps) simp
      from "1.IH"[OF n False pne "1.prems"(1) kv this] show ?thesis .
    qed
  qed
qed

lemma generateConfig_cfg_ok:
  assumes wf: "wf_agents ags" and gen: "generateConfig g ags Q K = Some Q'"
    and kv: "Kvalid g Q K" and q: "cfg_ok (length ags) Q"
  shows "cfg_ok (length ags) Q'"
proof -
  note core = generateConfig_core[OF wf gen]
  have "Q' ! a \<noteq> Undefined" if a: "a < length ags" for a
  proof (cases "K (Val a)")
    case None
    from core(3)[OF a None] cfg_ok_get[OF q a] show ?thesis by auto
  next
    case (Some w)
    from kv Some have "w \<in> moves g (cfg_get Q a)" unfolding Kvalid_def by blast
    then have "w = Q ! a \<or> w \<in> Val ` set (getNeighbors g (cfg_get Q a))"
      using cfg_ok_get[OF q a] unfolding moves_def by auto
    with cfg_ok_get[OF q a] have "w \<noteq> Undefined" by auto
    with core(5)[OF a Some] show ?thesis by simp
  qed
  with core(1) show ?thesis unfolding cfg_ok_def by (auto simp: in_set_conv_nth)
qed

lemma stepGenerate_inv:
  assumes inv: "search_inv s" and ph: "phase (state s) = Generate"
    and wf: "wf_agents (agents s)" and st: "stepGenerate s = Inr (b, s')"
  shows "search_inv s'"
proof -
  from st obtain C K N where C: "currentLowLevelNode (state s) = Some C"
    and K: "getConstraints s C = Some K" and cur: "currentHighLevelNode (state s) = Some N"
    unfolding stepGenerate_def by (auto split: option.splits)
  from inv cur ph C have rC: "treeRoot N = Some (fst C)"
    unfolding search_inv_def phase_ok_def by simp
  have Nl: "N \<in> live s" using cur by (simp add: live_def)
  with inv have ni: "node_inv s N" by (simp add: search_inv_def)
  with rC have r: "fst C < length (trees s)" "tree_ok (graph s) (config N) (trees s ! fst C)"
    and ok: "cfg_ok (length (agents s)) (config N)"
    unfolding node_inv_def by auto
  from K r(1) have "constraints_up (trees s ! fst C) (snd C) Map.empty = Some K"
    by (simp add: getConstraints_def get_tree_def)
  from constraints_up_valid[OF r(2) _ this] have kv: "Kvalid (graph s) (config N) K"
    by (simp add: Kvalid_def)
  show ?thesis
  proof (cases "generateConfig (graph s) (agents s) (config N) K")
    case None
    with st C K cur have s': "s' = s\<lparr>state := (state s)\<lparr>generatedConfig := None, phase := Select\<rparr>\<rparr>"
      unfolding stepGenerate_def by simp
    show ?thesis
    proof (rule search_inv_same_heap[OF inv])
      show "live s' \<subseteq> live s" by (simp add: s' live_def)
      show "currentHighLevelNode (state s') \<noteq> None" using cur by (simp add: s')
      show "phase_ok s'" by (simp add: s' phase_ok_def)
      show "solved_ok s'" using inv solved_ok_cong[of s' s] by (simp add: s' search_inv_def)
    qed (simp_all add: s')
  next
    case (Some Qnew)
    with st C K cur have s': "s' = s\<lparr>state := (state s)\<lparr>generatedConfig := Some Qnew, phase := Check\<rparr>\<rparr>"
      unfolding stepGenerate_def by simp
    have su: "successor (graph s) (agents s) (config N) Qnew"
      unfolding successor_def using kv Some by blast
    have co: "cfg_ok (length (agents s)) Qnew"
      by (rule generateConfig_cfg_ok[OF wf Some kv ok])
    show ?thesis
    proof (rule search_inv_same_heap[OF inv])
      show "live s' \<subseteq> live s" by (simp add: s' live_def)
      show "currentHighLevelNode (state s') \<noteq> None" using cur by (simp add: s')
      show "phase_ok s'" using cur su co by (simp add: s' phase_ok_def)
      show "solved_ok s'" using inv solved_ok_cong[of s' s] by (simp add: s' search_inv_def)
    qed (simp_all add: s')
  qed
qed

lemma order_ids:
  assumes "wf_agents ags" "mset ord = mset (map agent_id ags)"
  shows "length ord = length ags \<and> set ord \<subseteq> {0..<length ags}"
proof -
  from assms(2) have "length ord = length (map agent_id ags)" by (rule mset_eq_length)
  moreover from assms(2) have "set ord = set (map agent_id ags)" by (rule mset_eq_setD)
  ultimately show ?thesis using wf_agents_ids[OF assms(1)] by simp
qed

lemma tree_ok_new_root: "tree_ok g Q (new_root i)"
  by (simp add: new_root_def)

lemma stepCheck_inv:
  assumes inv: "search_inv s" and ph: "phase (state s) = Check"
    and wf: "wf_agents (agents s)" and st: "stepCheck s = Inr (b, s')"
  shows "search_inv s'"
proof -
  from st obtain Qnew where Q: "generatedConfig (state s) = Some Qnew"
    unfolding stepCheck_def by (auto split: option.splits)
  from inv obtain N where cur: "currentHighLevelNode (state s) = Some N"
    unfolding search_inv_def by auto
  from inv cur ph Q have su: "successor (graph s) (agents s) (config N) Qnew"
    and co: "cfg_ok (length (agents s)) Qnew"
    unfolding search_inv_def phase_ok_def by simp_all
  have Nl: "N \<in> live s" using cur by (simp add: live_def)
  with inv have ni: "node_inv s N" by (simp add: search_inv_def)
  show ?thesis
  proof (cases "hash Qnew \<in> fst ` set (explored (state s))")
    case True
    with st Q have s': "s' = s\<lparr>state := (state s)\<lparr>phase := Select\<rparr>\<rparr>"
      unfolding stepCheck_def by simp
    show ?thesis
    proof (rule search_inv_same_heap[OF inv])
      show "live s' \<subseteq> live s" by (simp add: s' live_def)
      show "currentHighLevelNode (state s') \<noteq> None" using cur by (simp add: s')
      show "phase_ok s'" by (simp add: s' phase_ok_def)
      show "solved_ok s'" using inv solved_ok_cong[of s' s] by (simp add: s' search_inv_def)
    qed (simp_all add: s')
  next
    case False
    let ?Nnew = "HLNode (hlNodeIdCounter s) Qnew (length (queues s)) (Some (length (trees s)))
                   (getOrder (graph s) (agents s) Qnew) (Some N)"
    from st Q False cur have s': "s' = s\<lparr>state := (state s)
          \<lparr>open_nodes := open_nodes (state s) @ [?Nnew],
           explored := map_set (explored (state s)) (hash Qnew) ?Nnew,
           nodesGenerated := Suc (nodesGenerated (state s)),
           configurationsExplored := Suc (configurationsExplored (state s)),
           phase := Select\<rparr>,
         hlNodeIdCounter := Suc (hlNodeIdCounter s),
         llNodeIdCounter := Suc (llNodeIdCounter s),
         trees := trees s @ [new_root (llNodeIdCounter s)],
         queues := queues s @ [[(length (trees s), [])]]\<rparr>"
      unfolding stepCheck_def Let_def by auto
    have
      fr: "graph s' = graph s" "agents s' = agents s" and
      ts: "trees s' = trees s @ [new_root (llNodeIdCounter s)]" and
      qs: "queues s' = queues s @ [[(length (trees s), [])]]" and
      op: "open_nodes (state s') = open_nodes (state s) @ [?Nnew]" and
      cu: "currentHighLevelNode (state s') = Some N" and
      php: "phase (state s') = Select" and
      sts: "status (state s') = status (state s)" "solution (state s') = solution (state s)"
      using cur by (simp_all add: s')
    have lv: "live s' = insert ?Nnew (live s)" unfolding live_def op cu cur by auto
    have old: "node_inv s' n" if "n \<in> live s" for n
    proof (rule node_inv_grow[OF _ fr])
      show "node_inv s n" using inv that by (simp add: search_inv_def)
    qed (simp_all add: ts qs)
    have cv: "chain_valid (graph s) (agents s) N" using ni by (simp add: node_inv_def)
    have new: "node_inv s' ?Nnew"
      unfolding node_inv_def fr ts qs
      using su cv co order_ids[OF wf getOrder_mset[of "graph s" "agents s" Qnew]]
      by (simp add: tree_ok_new_root)
    have fresh: "tree n \<noteq> tree ?Nnew \<and> treeRoot n \<noteq> treeRoot ?Nnew" if "n \<in> live s" for n
    proof -
      from inv that have "node_inv s n" by (simp add: search_inv_def)
      then show ?thesis unfolding node_inv_def by auto
    qed
    have dist: "\<forall>n \<in> live s'. \<forall>n' \<in> live s'. (tree n = tree n' \<or> treeRoot n = treeRoot n') \<longrightarrow> n = n'"
    proof (intro ballI impI)
      fix n n' assume n: "n \<in> live s'" "n' \<in> live s'"
        and e: "tree n = tree n' \<or> treeRoot n = treeRoot n'"
      show "n = n'"
      proof (cases "n = ?Nnew")
        case True
        show ?thesis
        proof (cases "n' = ?Nnew")
          case True
          with \<open>n = ?Nnew\<close> show ?thesis by simp
        next
          case False
          with n(2) lv have "n' \<in> live s" by simp
          from fresh[OF this] e True show ?thesis by auto
        qed
      next
        case False
        with n(1) lv have nl: "n \<in> live s" by simp
        show ?thesis
        proof (cases "n' = ?Nnew")
          case True
          from fresh[OF nl] e True show ?thesis by auto
        next
          case False
          with n(2) lv have "n' \<in> live s" by simp
          with nl e inv show ?thesis unfolding search_inv_def by blast
        qed
      qed
    qed
    have po: "phase_ok s'" unfolding phase_ok_def php by simp
    have so: "solved_ok s'"
      using inv solved_ok_cong[OF fr sts] by (simp add: search_inv_def)
    show ?thesis unfolding search_inv_def using old new dist po so cu lv by auto
  qed
qed



lemma initialize_inv:
  assumes "wf_instance (agents s)"
  shows "search_inv (initialize s)"
proof -
  let ?Q = "map start (agents s)"
  let ?N = "HLNode 0 ?Q 0 (Some 0) (getInitOrder (graph s) (agents s)) None"
  let ?s0 = "s\<lparr>state :=
                \<lparr>open_nodes = [?N], explored = [(hash ?Q, ?N)], currentHighLevelNode = Some ?N,
                 currentLowLevelNode = None, generatedConfig = None, stepNumber = 0,
                 phase = Select, status = Running, solution = None, nodesGenerated = 1,
                 configurationsExplored = 1\<rparr>,
              history := [], hlNodeIdCounter := 1, llNodeIdCounter := 1,
              trees := [new_root 0], queues := [[(0, [])]]\<rparr>"
  from assms have wf: "wf_agents (agents s)"
    and su: "\<forall>a \<in> set (agents s). start a \<noteq> Undefined"
    by (auto simp: wf_instance_def list_all_iff)
  have co: "cfg_ok (length (agents s)) ?Q" using su by (auto simp: cfg_ok_def)
  have lv: "live ?s0 = {?N}" by (simp add: live_def)
  have ni: "node_inv ?s0 ?N"
    unfolding node_inv_def
    using co order_ids[OF wf getInitOrder_mset[of "graph s" "agents s"]]
    by (simp add: tree_ok_new_root)
  have "search_inv ?s0"
    unfolding search_inv_def lv using ni by (simp add: phase_ok_def solved_ok_def)
  then have "search_inv (saveHistory ?s0)" by (rule search_inv_saveHistory)
  then show ?thesis by (simp add: initialize_def Let_def)
qed


lemma successor_valid:
  assumes wf: "wf_agents ags" and su: "successor g ags Q Q'"
  shows "(\<exists>K. generateConfig g ags Q K = Some Q') \<and> valid_successor g ags Q Q'"
proof -
  from su obtain K where kv: "Kvalid g Q K" and gen: "generateConfig g ags Q K = Some Q'"
    unfolding successor_def by blast
  note core = generateConfig_core[OF wf gen]
  have mv: "Q' ! a \<in> moves g (cfg_get Q a)" if "a < length ags" for a
  proof (cases "K (Val a)")
    case None
    from core(3)[OF that None] show ?thesis by (auto simp: moves_def)
  next
    case (Some w)
    with core(5)[OF that Some] kv show ?thesis by (simp add: Kvalid_def)
  qed
  have "valid_successor g ags Q Q'"
    unfolding valid_successor_def using core(1,2,4) mv by blast
  with gen show ?thesis by blast
qed





section \<open>Termination of the search\<close>

lemma neighbors_le_branching: "Suc (length (getNeighbors g v)) \<le> branching g"
proof (cases v)
  case (Val x)
  show ?thesis
  proof (cases "map_of (adjacency g) x")
    case None
    with Val show ?thesis by (simp add: branching_def)
  next
    case (Some ns)
    then have "(x, ns) \<in> set (adjacency g)" by (rule map_of_SomeD)
    then have "length (snd (x, ns)) \<in> set (map (\<lambda>e. length (snd e)) (adjacency g))"
      unfolding set_map by (rule imageI)
    then have "length ns \<le> sum_list (map (\<lambda>e. length (snd e)) (adjacency g))"
      using member_le_sum_list by fastforce
    with Val Some show ?thesis by (simp add: branching_def)
  qed
qed (simp_all add: branching_def)

lemma neighbors_universe: "Val ` set (getNeighbors g v) \<subseteq> universe g ags"
proof (cases v)
  case (Val x)
  show ?thesis
  proof (cases "map_of (adjacency g) x")
    case None
    with Val show ?thesis by simp
  next
    case (Some ns)
    then have "(x, ns) \<in> set (adjacency g)" by (rule map_of_SomeD)
    with Val Some show ?thesis by (force simp: universe_def)
  qed
qed simp_all

lemma finite_universe: "finite (universe g ags)"
  by (simp add: universe_def)

lemma finite_hashes: "finite (hashes g ags)"
  unfolding hashes_def by (intro finite_imageI finite_lists_length_eq finite_universe)

text \<open>A change at one node that keeps depths and old children keeps the depth of
  every node of the tree, at its old path.\<close>

lemma subtree_update_at_depth:
  assumes f: "\<And>n. depth (f n) = depth n \<and> prefix (children n) (children (f n))"
  shows "subtree t q = Some c \<Longrightarrow>
         \<exists>c'. subtree (update_at f t p) q = Some c' \<and> depth c' = depth c"
proof (induction p arbitrary: t q c)
  case Nil
  show ?case
  proof (cases q)
    case Nil
    with Nil.prems f show ?thesis by simp
  next
    case (Cons k q')
    from Nil.prems Cons have k: "k < length (children t)"
      and s: "subtree (children t ! k) q' = Some c"
      by (auto split: if_splits)
    from f[of t] obtain zs where "children (f t) = children t @ zs" by (auto simp: prefix_def)
    with k s Cons show ?thesis by (simp add: nth_append)
  qed
next
  case (Cons j p)
  obtain i w v cs dp se sl where t: "t = LLNode i w v cs dp se sl" by (cases t)
  show ?case
  proof (cases "j < length cs")
    case False
    with t Cons.prems show ?thesis by simp
  next
    case True
    show ?thesis
    proof (cases q)
      case Nil
      with Cons.prems have "c = t" by simp
      with Nil t True show ?thesis by simp
    next
      case (Cons k q')
      with Cons.prems t have k: "k < length cs" and s: "subtree (cs ! k) q' = Some c"
        by (auto split: if_splits)
      show ?thesis
      proof (cases "k = j")
        case True
        from Cons.IH[OF s[unfolded True]] t Cons True k show ?thesis by simp
      next
        case False
        with t Cons k s \<open>j < length cs\<close> show ?thesis by simp
      qed
    qed
  qed
qed

lemma deref_update_node_depth:
  assumes f: "\<And>n. depth (f n) = depth n \<and> prefix (children n) (children (f n))"
    and d: "deref s x = Some c"
  shows "\<exists>c'. deref (update_node s C f) x = Some c' \<and> depth c' = depth c"
proof -
  from derefD[OF d] have a: "fst x < length (trees s)"
    and st: "subtree (trees s ! fst x) (snd x) = Some c" by simp_all
  show ?thesis
  proof (cases "fst C < length (trees s) \<and> fst C = fst x")
    case True
    from subtree_update_at_depth[of f, OF f st, of "snd C"] True a show ?thesis
      by (simp add: deref_def get_tree_def update_node_def)
  next
    case False
    with a st show ?thesis by (auto simp: deref_def get_tree_def update_node_def)
  qed
qed

lemma mark_popped_keeps: "depth (mark_popped n) = depth n \<and> prefix (children n) (children (mark_popped n))"
  by (cases n) simp

lemma add_children_keeps:
  "depth (add_children new n) = depth n \<and> prefix (children n) (children (add_children new n))"
  by (cases n) simp

lemma ref_weight_update_node:
  assumes f: "\<And>n. depth (f n) = depth n \<and> prefix (children n) (children (f n))"
    and d: "deref s x \<noteq> None"
  shows "ref_weight (update_node s C f) x = ref_weight s x \<and> deref (update_node s C f) x \<noteq> None"
proof -
  from d obtain c where c: "deref s x = Some c" by auto
  from deref_update_node_depth[of f, OF f c, of C] obtain c' where
    "deref (update_node s C f) x = Some c'" "depth c' = depth c" by blast
  with c update_node_frame[of s C f] show ?thesis by (simp add: ref_weight_def)
qed

lemma ref_weight_queues:
  "ref_weight (s\<lparr>queues := qs\<rparr>) x = ref_weight s x"
  by (simp add: ref_weight_def deref_def get_tree_def split: option.splits)

lemma term_invI:
  assumes "search_inv s" "wf_agents (agents s)" "distinct (open_nodes (state s))"
    "\<And>n. n \<in> live s \<Longrightarrow> set (config n) \<subseteq> universe (graph s) (agents s)"
    "\<And>n x. n \<in> live s \<Longrightarrow> x \<in> set (queues s ! tree n) \<Longrightarrow> deref s x \<noteq> None"
    "phase (state s) \<noteq> Init"
    "phase (state s) \<in> {PopConstraint, ExpandTree} \<Longrightarrow>
       open_nodes (state s) \<noteq> [] \<and>
       currentHighLevelNode (state s) = Some (last (open_nodes (state s)))"
    "phase (state s) = PopConstraint \<Longrightarrow> queues s ! tree (last (open_nodes (state s))) \<noteq> []"
    "phase (state s) \<in> {ExpandTree, Generate} \<Longrightarrow>
       \<exists>C. currentLowLevelNode (state s) = Some C \<and> deref s C \<noteq> None"
    "phase (state s) = Check \<Longrightarrow> generatedConfig (state s) \<noteq> None"
  shows "term_inv s"
  unfolding term_inv_def using assms by blast

lemma term_invD:
  assumes "term_inv s"
  shows "search_inv s" "wf_agents (agents s)" "distinct (open_nodes (state s))"
    "\<And>n. n \<in> live s \<Longrightarrow> set (config n) \<subseteq> universe (graph s) (agents s)"
    "\<And>n x. n \<in> live s \<Longrightarrow> x \<in> set (queues s ! tree n) \<Longrightarrow> deref s x \<noteq> None"
    "phase (state s) \<noteq> Init"
    "phase (state s) \<in> {PopConstraint, ExpandTree} \<Longrightarrow>
       open_nodes (state s) \<noteq> [] \<and>
       currentHighLevelNode (state s) = Some (last (open_nodes (state s)))"
    "phase (state s) = PopConstraint \<Longrightarrow> queues s ! tree (last (open_nodes (state s))) \<noteq> []"
    "phase (state s) \<in> {ExpandTree, Generate} \<Longrightarrow>
       \<exists>C. currentLowLevelNode (state s) = Some C \<and> deref s C \<noteq> None"
    "phase (state s) = Check \<Longrightarrow> generatedConfig (state s) \<noteq> None"
  using assms unfolding term_inv_def by blast+

lemma ref_weight_cong:
  "graph s' = graph s \<Longrightarrow> agents s' = agents s \<Longrightarrow> trees s' = trees s \<Longrightarrow>
   ref_weight s' x = ref_weight s x"
  by (simp add: ref_weight_def deref_def get_tree_def split: option.splits)

lemma queue_weight_eq:
  assumes "queues s' ! tree n = queues s ! tree n"
    and "\<And>x. x \<in> set (queues s ! tree n) \<Longrightarrow> ref_weight s' x = ref_weight s x"
  shows "queue_weight s' n = queue_weight s n"
  unfolding queue_weight_def assms(1) using assms(2) by (simp cong: map_cong)

lemma queue_weight_cong:
  "graph s' = graph s \<Longrightarrow> agents s' = agents s \<Longrightarrow> trees s' = trees s \<Longrightarrow>
   queues s' = queues s \<Longrightarrow> queue_weight s' n = queue_weight s n"
proof -
  assume a: "graph s' = graph s" "agents s' = agents s" "trees s' = trees s" "queues s' = queues s"
  show ?thesis
    by (rule queue_weight_eq) (simp add: a, rule ref_weight_cong[OF a(1,2,3)])
qed

lemma sum_queue_weight_eq:
  "(\<And>n. n \<in> set ns \<Longrightarrow> queue_weight s' n = queue_weight s n) \<Longrightarrow>
   sum_list (map (queue_weight s') ns) = sum_list (map (queue_weight s) ns)"
  by (simp cong: map_cong)

lemma unexplored_cong:
  "graph s' = graph s \<Longrightarrow> agents s' = agents s \<Longrightarrow>
   explored (state s') = explored (state s) \<Longrightarrow> unexplored s' = unexplored s"
  by (simp add: unexplored_def)

lemma deref_prefix:
  assumes "prefix (trees s) (trees s')" "deref s x = Some c"
  shows "deref s' x = Some c"
proof -
  from assms(1) obtain ts where ts: "trees s' = trees s @ ts" by (auto simp: prefix_def)
  from derefD[OF assms(2)] show ?thesis
    by (simp add: deref_def get_tree_def ts nth_append)
qed

lemma ref_weight_prefix:
  assumes "graph s' = graph s" "agents s' = agents s" "prefix (trees s) (trees s')"
    "deref s x \<noteq> None"
  shows "ref_weight s' x = ref_weight s x \<and> deref s' x \<noteq> None"
proof -
  from assms(4) obtain c where c: "deref s x = Some c" by auto
  from deref_prefix[OF assms(3) c] c assms(1,2) show ?thesis by (simp add: ref_weight_def)
qed

lemma live_tree_bound: "search_inv s \<Longrightarrow> n \<in> live s \<Longrightarrow> tree n < length (queues s)"
  by (auto simp: search_inv_def node_inv_def)

lemma live_tree_distinct:
  "search_inv s \<Longrightarrow> n \<in> live s \<Longrightarrow> n' \<in> live s \<Longrightarrow> n \<noteq> n' \<Longrightarrow> tree n \<noteq> tree n'"
  unfolding search_inv_def by blast

text \<open>Saving a snapshot and counting the step change neither the invariant nor the
  measure.\<close>

lemma term_inv_prepare:
  assumes ti: "term_inv s"
    and fr: "graph s' = graph s" "agents s' = agents s"
    and st: "open_nodes (state s') = open_nodes (state s)"
      "explored (state s') = explored (state s)"
      "currentHighLevelNode (state s') = currentHighLevelNode (state s)"
      "currentLowLevelNode (state s') = currentLowLevelNode (state s)"
      "generatedConfig (state s') = generatedConfig (state s)"
      "phase (state s') = phase (state s)" "status (state s') = status (state s)"
      "solution (state s') = solution (state s)"
    and hp: "prefix (trees s) (trees s')" "prefix (queues s) (queues s')"
  shows "term_inv s' \<and> unexplored s' = unexplored s \<and> mu s' = mu s"
proof -
  from ti have inv: "search_inv s" by (simp add: term_inv_def)
  let ?sm = "s\<lparr>trees := trees s', queues := queues s'\<rparr>"
  have "search_inv ?sm" by (rule search_inv_grow[OF inv]) (simp_all add: hp)
  moreover have "search_inv s' = search_inv ?sm"
    by (rule search_inv_cong) (simp_all add: fr st)
  ultimately have si: "search_inv s'" by simp
  have lv: "live s' = live s" by (simp add: live_def st)
  from hp(2) obtain qs where qs: "queues s' = queues s @ qs" by (auto simp: prefix_def)
  have q: "queues s' ! tree n = queues s ! tree n" if "n \<in> live s" for n
    using live_tree_bound[OF inv that] by (simp add: qs nth_append)
  have valid: "deref s x \<noteq> None" if "n \<in> live s" "x \<in> set (queues s ! tree n)" for n x
    using ti that unfolding term_inv_def by blast
  have rw: "ref_weight s' x = ref_weight s x \<and> deref s' x \<noteq> None"
    if "n \<in> live s" "x \<in> set (queues s ! tree n)" for n x
    by (rule ref_weight_prefix[OF fr hp(1) valid[OF that]])
  have qw: "queue_weight s' n = queue_weight s n" if "n \<in> live s" for n
    by (rule queue_weight_eq[OF q[OF that]]) (simp add: rw[OF that])
  have op: "set (open_nodes (state s)) \<subseteq> live s" by (simp add: live_def)
  have sm: "sum_list (map (queue_weight s') (open_nodes (state s'))) =
            sum_list (map (queue_weight s) (open_nodes (state s)))"
    unfolding st by (rule sum_queue_weight_eq) (use op qw in blast)
  have cl: "\<exists>C. currentLowLevelNode (state s) = Some C \<and> deref s C \<noteq> None"
    if "phase (state s) \<in> {ExpandTree, Generate}"
    using ti that unfolding term_inv_def by blast
  have cl': "\<exists>C. currentLowLevelNode (state s') = Some C \<and> deref s' C \<noteq> None"
    if "phase (state s) \<in> {ExpandTree, Generate}"
  proof -
    from cl[OF that] obtain C c where "currentLowLevelNode (state s) = Some C" "deref s C = Some c"
      by auto
    with deref_prefix[OF hp(1) this(2)] show ?thesis by (simp add: st)
  qed
  have inf: "inflight s' = inflight s"
  proof (cases "phase (state s) = ExpandTree")
    case True
    with cl obtain C c where C: "currentLowLevelNode (state s) = Some C" "deref s C = Some c"
      by auto
    with deref_prefix[OF hp(1) C(2)] True show ?thesis by (simp add: inflight_def st fr)
  next
    case False
    then show ?thesis by (simp add: inflight_def st)
  qed
  note D = term_invD[OF ti]
  have t: "term_inv s'"
  proof (rule term_invI)
    show "search_inv s'" by (rule si)
    show "wf_agents (agents s')" using D(2) by (simp add: fr)
    show "distinct (open_nodes (state s'))" using D(3) by (simp add: st)
    show "set (config n) \<subseteq> universe (graph s') (agents s')" if "n \<in> live s'" for n
      using D(4)[of n] that by (simp add: lv fr)
    show "deref s' x \<noteq> None" if "n \<in> live s'" "x \<in> set (queues s' ! tree n)" for n x
    proof -
      from that have n: "n \<in> live s" by (simp add: lv)
      with that(2) q[OF n] have "x \<in> set (queues s ! tree n)" by simp
      from rw[OF n this] show ?thesis by simp
    qed
    show "phase (state s') \<noteq> Init" using D(6) by (simp add: st)
    show "open_nodes (state s') \<noteq> [] \<and>
       currentHighLevelNode (state s') = Some (last (open_nodes (state s')))"
      if "phase (state s') \<in> {PopConstraint, ExpandTree}"
      using D(7) that by (simp add: st)
    show "queues s' ! tree (last (open_nodes (state s'))) \<noteq> []"
      if "phase (state s') = PopConstraint"
    proof -
      from that have p: "phase (state s) = PopConstraint" by (simp add: st)
      with D(7) have "last (open_nodes (state s)) \<in> live s" by (simp add: last_in_live)
      from q[OF this] D(8)[OF p] show ?thesis by (simp add: st)
    qed
    show "\<exists>C. currentLowLevelNode (state s') = Some C \<and> deref s' C \<noteq> None"
      if "phase (state s') \<in> {ExpandTree, Generate}"
      using cl' that by (simp only: st)
    show "generatedConfig (state s') \<noteq> None" if "phase (state s') = Check"
      using D(10) that by (simp add: st)
  qed
  have "potential s' = potential s" by (simp add: potential_def sm inf)
  then have "mu s' = mu s" by (simp add: mu_def st)
  with t unexplored_cong[OF fr st(2)] show ?thesis by simp
qed

lemma term_inv_step_prepare:
  assumes "term_inv s"
  shows "term_inv (saveHistory s\<lparr>state := (state (saveHistory s))\<lparr>stepNumber := k\<rparr>\<rparr>) \<and>
         unexplored (saveHistory s\<lparr>state := (state (saveHistory s))\<lparr>stepNumber := k\<rparr>\<rparr>) = unexplored s \<and>
         mu (saveHistory s\<lparr>state := (state (saveHistory s))\<lparr>stepNumber := k\<rparr>\<rparr>) = mu s"
proof -
  note f = saveHistory_frame[of s]
  show ?thesis by (rule term_inv_prepare[OF assms]) (simp_all add: f)
qed

lemma goodI:
  "r = Inr (True, s') \<Longrightarrow> status (state s') = Running \<Longrightarrow> term_inv s' \<Longrightarrow> smaller s' s \<Longrightarrow>
   \<exists>b s''. r = Inr (b, s'') \<and> good s b s''"
  by (auto simp: good_def)

lemma potential_idle:
  "phase (state s) \<noteq> ExpandTree \<Longrightarrow>
   potential s = sum_list (map (queue_weight s) (open_nodes (state s)))"
  by (simp add: potential_def inflight_def)

lemma deref_trees_cong: "trees s' = trees s \<Longrightarrow> deref s' x = deref s x"
  by (simp add: deref_def get_tree_def)

lemma stepSelect_term:
  assumes ti: "term_inv s" and ph: "phase (state s) = Select"
    and run: "status (state s) = Running"
  shows "\<exists>b s'. stepSelect s = Inr (b, s') \<and> good s b s'"
proof -
  note D = term_invD[OF ti]
  show ?thesis
  proof (cases "open_nodes (state s) = []")
    case True
    then have "stepSelect s = Inr (False, s\<lparr>state := (state s)\<lparr>status := NoSolution\<rparr>\<rparr>)"
      by (simp add: stepSelect_def)
    then show ?thesis by (auto simp: good_def)
  next
    case False
    let ?N = "last (open_nodes (state s))"
    have Nl: "?N \<in> live s" by (rule last_in_live[OF False])
    have tq: "tree ?N < length (queues s)" by (rule live_tree_bound[OF D(1) Nl])
    show ?thesis
    proof (cases "equals (config ?N) (map goal (agents s))")
      case True
      with False have "stepSelect s = Inr (False, s\<lparr>state := (state s)
          \<lparr>currentHighLevelNode := Some ?N, solution := Some (backtrack ?N), status := Solved\<rparr>\<rparr>)"
        by (simp add: stepSelect_def Let_def)
      then show ?thesis by (auto simp: good_def)
    next
      case ne: False
      show ?thesis
      proof (cases "queues s ! tree ?N = []")
        case True
        let ?s' = "s\<lparr>state := (state s)\<lparr>currentHighLevelNode := Some ?N,
                      open_nodes := butlast (open_nodes (state s))\<rparr>\<rparr>"
        have eq: "stepSelect s = Inr (True, ?s')"
          using False ne True tq by (simp add: stepSelect_def Let_def get_queue_def)
        have si: "search_inv ?s'" by (rule stepSelect_inv[OF D(1) ph eq])
        have lv: "live ?s' \<subseteq> live s" using Nl by (auto simp: live_def dest: in_set_butlastD)
        have t: "term_inv ?s'"
        proof (rule term_invI)
          show "search_inv ?s'" by (rule si)
          show "wf_agents (agents ?s')" using D(2) by simp
          show "distinct (open_nodes (state ?s'))" using D(3) by (simp add: distinct_butlast)
          show "set (config n) \<subseteq> universe (graph ?s') (agents ?s')" if "n \<in> live ?s'" for n
            using D(4)[of n] that lv by auto
          show "deref ?s' x \<noteq> None" if "n \<in> live ?s'" "x \<in> set (queues ?s' ! tree n)" for n x
          proof -
            from that lv have "n \<in> live s" "x \<in> set (queues s ! tree n)" by auto
            from D(5)[OF this] show ?thesis by (simp add: deref_trees_cong[of ?s' s])
          qed
        qed (simp_all add: ph)
        have op: "open_nodes (state s) = butlast (open_nodes (state s)) @ [?N]"
          using False by simp
        have qw: "queue_weight ?s' = queue_weight s"
          by (rule ext, rule queue_weight_cong) simp_all
        have "potential s = sum_list (map (queue_weight s) (butlast (open_nodes (state s)))) +
                            queue_weight s ?N"
          by (subst potential_idle, simp add: ph, subst op, simp)
        moreover have "potential ?s' = sum_list (map (queue_weight s) (butlast (open_nodes (state s))))"
          by (subst potential_idle, simp add: ph, simp add: qw)
        ultimately have "potential ?s' < potential s" by (simp add: queue_weight_def)
        then have "mu ?s' < mu s" by (simp add: mu_def ph)
        moreover have "unexplored ?s' = unexplored s" by (rule unexplored_cong) simp_all
        ultimately have "smaller ?s' s" by (simp add: smaller_def)
        with t eq run show ?thesis by (auto simp: good_def)
      next
        case qne: False
        let ?s' = "s\<lparr>state := (state s)\<lparr>currentHighLevelNode := Some ?N, phase := PopConstraint\<rparr>\<rparr>"
        have eq: "stepSelect s = Inr (True, ?s')"
          using False ne qne tq by (simp add: stepSelect_def Let_def get_queue_def)
        have si: "search_inv ?s'" by (rule stepSelect_inv[OF D(1) ph eq])
        have lv: "live ?s' \<subseteq> live s" using Nl by (auto simp: live_def)
        have t: "term_inv ?s'"
        proof (rule term_invI)
          show "search_inv ?s'" by (rule si)
          show "wf_agents (agents ?s')" using D(2) by simp
          show "distinct (open_nodes (state ?s'))" using D(3) by simp
          show "set (config n) \<subseteq> universe (graph ?s') (agents ?s')" if "n \<in> live ?s'" for n
            using D(4)[of n] that lv by auto
          show "deref ?s' x \<noteq> None" if "n \<in> live ?s'" "x \<in> set (queues ?s' ! tree n)" for n x
          proof -
            from that lv have "n \<in> live s" "x \<in> set (queues s ! tree n)" by auto
            from D(5)[OF this] show ?thesis by (simp add: deref_trees_cong[of ?s' s])
          qed
          show "queues ?s' ! tree (last (open_nodes (state ?s'))) \<noteq> []" using qne by simp
          show "open_nodes (state ?s') \<noteq> [] \<and>
                currentHighLevelNode (state ?s') = Some (last (open_nodes (state ?s')))"
            using False by simp
        qed simp_all
        have qw: "queue_weight ?s' = queue_weight s"
          by (rule ext, rule queue_weight_cong) simp_all
        have "potential ?s' = potential s"
          by (subst potential_idle, simp, subst potential_idle, simp add: ph, simp add: qw)
        then have "mu ?s' < mu s" by (simp add: mu_def ph)
        moreover have "unexplored ?s' = unexplored s" by (rule unexplored_cong) simp_all
        ultimately have "smaller ?s' s" by (simp add: smaller_def)
        with t eq run show ?thesis by (auto simp: good_def)
      qed
    qed
  qed
qed

lemma weight_split:
  "weight b (n - d) = Suc (if d < n then b * weight b (n - Suc d) else 0)"
proof (cases "d < n")
  case True
  then have "n - d = Suc (n - Suc d)" by simp
  then have "weight b (n - d) = Suc (b * weight b (n - Suc d))" by (simp only: weight.simps)
  with True show ?thesis by simp
next
  case False
  then show ?thesis by simp
qed

lemma stepPopConstraint_term:
  assumes ti: "term_inv s" and ph: "phase (state s) = PopConstraint"
    and run: "status (state s) = Running"
  shows "\<exists>b s'. stepPopConstraint s = Inr (b, s') \<and> good s b s'"
proof -
  note D = term_invD[OF ti]
  let ?N = "last (open_nodes (state s))"
  from D(7) ph have one: "open_nodes (state s) \<noteq> []"
    and cur: "currentHighLevelNode (state s) = Some ?N" by simp_all
  have Nl: "?N \<in> live s" by (rule last_in_live[OF one])
  have tq: "tree ?N < length (queues s)" by (rule live_tree_bound[OF D(1) Nl])
  from D(8)[OF ph] obtain C rest where q: "queues s ! tree ?N = C # rest"
    by (cases "queues s ! tree ?N") auto
  from D(5)[OF Nl, of C] q obtain c where c: "deref s C = Some c" by auto
  let ?u = "update_node (s\<lparr>queues := (queues s)[tree ?N := rest]\<rparr>) C mark_popped"
  let ?s' = "?u\<lparr>state := (state ?u)\<lparr>currentLowLevelNode := Some C, phase := ExpandTree\<rparr>\<rparr>"
  have c0: "deref (s\<lparr>queues := (queues s)[tree ?N := rest]\<rparr>) C = Some c"
    using c by (simp add: deref_trees_cong[of "s\<lparr>queues := (queues s)[tree ?N := rest]\<rparr>" s])
  have eq: "stepPopConstraint s = Inr (True, ?s')"
    using cur tq q c by (simp add: stepPopConstraint_def get_queue_def Let_def)
  have si: "search_inv ?s'" by (rule stepPopConstraint_inv[OF D(1) eq])
  have fr: "graph ?s' = graph s" "agents ?s' = agents s" by (simp_all add: update_node_def)
  have stt: "open_nodes (state ?s') = open_nodes (state s)"
    "explored (state ?s') = explored (state s)"
    "currentHighLevelNode (state ?s') = Some ?N"
    "currentLowLevelNode (state ?s') = Some C"
    "phase (state ?s') = ExpandTree" "status (state ?s') = status (state s)"
    by (simp_all add: update_node_def cur)
  have tr: "trees ?s' = trees (update_node s C mark_popped)" by (simp add: update_node_def)
  have qs: "queues ?s' = (queues s)[tree ?N := rest]" by (simp add: update_node_def)
  have lv: "live ?s' = live s" unfolding live_def stt cur by simp
  have rw: "ref_weight ?s' x = ref_weight s x \<and> deref ?s' x \<noteq> None" if "deref s x \<noteq> None" for x
  proof -
    from ref_weight_update_node[of mark_popped s x C, OF mark_popped_keeps that]
    have "ref_weight (update_node s C mark_popped) x = ref_weight s x \<and>
          deref (update_node s C mark_popped) x \<noteq> None" .
    moreover have "ref_weight ?s' x = ref_weight (update_node s C mark_popped) x"
      by (rule ref_weight_cong) (simp_all add: update_node_def)
    moreover have "deref ?s' x = deref (update_node s C mark_popped) x"
      by (rule deref_trees_cong[OF tr])
    ultimately show ?thesis by simp
  qed
  have qother: "queues ?s' ! tree n = queues s ! tree n" if "n \<in> live s" "n \<noteq> ?N" for n
    using live_tree_distinct[OF D(1) that(1) Nl that(2)] by (simp add: qs)
  have qN: "queues ?s' ! tree ?N = rest" using tq by (simp add: qs)
  have t: "term_inv ?s'"
  proof (rule term_invI)
    show "search_inv ?s'" by (rule si)
    show "wf_agents (agents ?s')" using D(2) by (simp only: fr)
    show "distinct (open_nodes (state ?s'))" using D(3) by (simp only: stt)
    show "set (config n) \<subseteq> universe (graph ?s') (agents ?s')" if "n \<in> live ?s'" for n
      using D(4)[of n] that by (simp only: lv fr)
    show "deref ?s' x \<noteq> None" if "n \<in> live ?s'" "x \<in> set (queues ?s' ! tree n)" for n x
    proof -
      from that(1) have n: "n \<in> live s" by (simp only: lv)
      have "x \<in> set (queues s ! tree n)"
      proof (cases "n = ?N")
        case True
        with that(2) qN q show ?thesis by simp
      next
        case False
        with that(2) qother[OF n] show ?thesis by simp
      qed
      from rw[OF D(5)[OF n this]] show ?thesis by simp
    qed
    show "phase (state ?s') \<noteq> Init" by (simp only: stt) simp
    show "open_nodes (state ?s') \<noteq> [] \<and>
          currentHighLevelNode (state ?s') = Some (last (open_nodes (state ?s')))"
      using one by (simp only: stt) simp
    show "queues ?s' ! tree (last (open_nodes (state ?s'))) \<noteq> []"
      if "phase (state ?s') = PopConstraint"
      using that by (simp only: stt) simp
    show "\<exists>C. currentLowLevelNode (state ?s') = Some C \<and> deref ?s' C \<noteq> None"
      using rw[of C] c by (simp only: stt) simp
    show "generatedConfig (state ?s') \<noteq> None" if "phase (state ?s') = Check"
      using that by (simp only: stt) simp
  qed
  have op: "open_nodes (state s) = butlast (open_nodes (state s)) @ [?N]"
    using one by simp
  have notin: "?N \<notin> set (butlast (open_nodes (state s)))"
    using D(3) by (subst (asm) op) simp
  have qw_other: "queue_weight ?s' n = queue_weight s n"
    if "n \<in> set (butlast (open_nodes (state s)))" for n
  proof -
    from that have nl: "n \<in> live s" by (auto simp: live_def dest: in_set_butlastD)
    from that notin have ne: "n \<noteq> ?N" by auto
    show ?thesis
      by (rule queue_weight_eq[OF qother[OF nl ne]]) (simp add: rw[OF D(5)[OF nl]])
  qed
  have "sum_list (map (ref_weight ?s') rest) = sum_list (map (ref_weight s) rest)"
  proof (rule arg_cong[where f = sum_list], rule map_cong[OF refl])
    fix x assume "x \<in> set rest"
    then have "x \<in> set (queues s ! tree ?N)" by (simp add: q)
    from rw[OF D(5)[OF Nl this]] show "ref_weight ?s' x = ref_weight s x" by simp
  qed
  then have qw_N: "queue_weight ?s' ?N = Suc (sum_list (map (ref_weight s) rest))"
    by (simp only: queue_weight_def qN)
  have qw_N0: "queue_weight s ?N = Suc (ref_weight s C + sum_list (map (ref_weight s) rest))"
    by (simp add: queue_weight_def q)
  from deref_update_node_depth[of mark_popped s C c C, OF mark_popped_keeps c]
  obtain c' where c': "deref (update_node s C mark_popped) C = Some c'" "depth c' = depth c"
    by blast
  from c'(1) have c'': "deref ?s' C = Some c'" by (simp only: deref_trees_cong[OF tr])
  have inf: "inflight ?s' =
     (if depth c < length (agents s)
      then branching (graph s) * weight (branching (graph s)) (length (agents s) - Suc (depth c))
      else 0)"
    unfolding inflight_def stt fr by (simp add: c'' c'(2))
  have rC: "ref_weight s C = Suc (inflight ?s')"
    unfolding inf by (simp add: ref_weight_def c weight_split[of _ "length (agents s)" "depth c"])
  have p0: "potential s = sum_list (map (queue_weight s) (butlast (open_nodes (state s)))) +
                          queue_weight s ?N"
    by (subst potential_idle, simp add: ph, subst op, simp)
  have p1: "potential ?s' = sum_list (map (queue_weight ?s') (butlast (open_nodes (state s)))) +
                          queue_weight ?s' ?N + inflight ?s'"
    unfolding potential_def stt by (subst op) simp
  have "sum_list (map (queue_weight ?s') (butlast (open_nodes (state s)))) =
        sum_list (map (queue_weight s) (butlast (open_nodes (state s))))"
    by (rule sum_queue_weight_eq) (rule qw_other)
  with p0 p1 qw_N qw_N0 rC have "potential s = Suc (potential ?s')" by simp
  then have "mu ?s' < mu s" by (simp add: mu_def ph stt)
  moreover have "unexplored ?s' = unexplored s" by (rule unexplored_cong[OF fr stt(2)])
  ultimately have sm: "smaller ?s' s" by (simp add: smaller_def)
  from run stt(6) have "status (state ?s') = Running" by (simp only:)
  then show ?thesis by (rule goodI[OF eq _ t sm])
qed

lemma subtree_add_children:
  "subtree t p = Some c \<Longrightarrow> k < length new \<Longrightarrow>
   subtree (update_at (add_children new) t p) (p @ [length (children c) + k]) = Some (new ! k)"
proof (induction p arbitrary: t)
  case Nil
  then have "t = c" by simp
  with Nil show ?case by (cases c) (simp add: nth_append)
next
  case (Cons j p)
  obtain i w v cs dp se sl where t: "t = LLNode i w v cs dp se sl" by (cases t)
  from Cons.prems(1) t have j: "j < length cs" and s: "subtree (cs ! j) p = Some c"
    by (auto split: if_splits)
  from Cons.IH[OF s Cons.prems(2)] j t show ?case by simp
qed

lemma sum_list_const:
  "(\<And>x. x \<in> set xs \<Longrightarrow> f x = c) \<Longrightarrow> sum_list (map f xs) = length xs * c"
  by (induction xs) simp_all

lemma stepExpandTree_term:
  assumes ti: "term_inv s" and ph: "phase (state s) = ExpandTree"
    and run: "status (state s) = Running"
  shows "\<exists>b s'. stepExpandTree s = Inr (b, s') \<and> good s b s'"
proof -
  note D = term_invD[OF ti]
  let ?N = "last (open_nodes (state s))"
  let ?b = "branching (graph s)"
  from D(7) ph have one: "open_nodes (state s) \<noteq> []"
    and cur: "currentHighLevelNode (state s) = Some ?N" by simp_all
  have Nl: "?N \<in> live s" by (rule last_in_live[OF one])
  have tq: "tree ?N < length (queues s)" by (rule live_tree_bound[OF D(1) Nl])
  from D(9) ph obtain C c where C: "currentLowLevelNode (state s) = Some C"
    and c: "deref s C = Some c" by auto
  from derefD[OF c] have fC: "fst C < length (trees s)"
    and sub: "subtree (trees s ! fst C) (snd C) = Some c" by simp_all
  have op: "open_nodes (state s) = butlast (open_nodes (state s)) @ [?N]"
    using one by simp
  have notin: "?N \<notin> set (butlast (open_nodes (state s)))"
    using D(3) by (subst (asm) op) simp
  show ?thesis
  proof (cases "depth c < length (agents s)")
    case False
    let ?s' = "s\<lparr>state := (state s)\<lparr>phase := Generate\<rparr>\<rparr>"
    have eq: "stepExpandTree s = Inr (True, ?s')"
      using C c False by (simp add: stepExpandTree_def)
    have si: "search_inv ?s'" by (rule stepExpandTree_inv[OF D(1) ph eq])
    have lv: "live ?s' = live s" by (simp add: live_def)
    have t: "term_inv ?s'"
    proof (rule term_invI)
      show "search_inv ?s'" by (rule si)
      show "wf_agents (agents ?s')" using D(2) by simp
      show "distinct (open_nodes (state ?s'))" using D(3) by simp
      show "set (config n) \<subseteq> universe (graph ?s') (agents ?s')" if "n \<in> live ?s'" for n
        using D(4)[of n] that lv by auto
      show "deref ?s' x \<noteq> None" if "n \<in> live ?s'" "x \<in> set (queues ?s' ! tree n)" for n x
      proof -
        from that lv have "n \<in> live s" "x \<in> set (queues s ! tree n)" by auto
        from D(5)[OF this] show ?thesis by (simp add: deref_trees_cong[of ?s' s])
      qed
      show "\<exists>C. currentLowLevelNode (state ?s') = Some C \<and> deref ?s' C \<noteq> None"
        using C c by (simp add: deref_trees_cong[of ?s' s])
    qed simp_all
    have qw: "queue_weight ?s' = queue_weight s"
      by (rule ext, rule queue_weight_cong) simp_all
    have "inflight s = 0" using False C c by (simp add: inflight_def)
    then have "potential ?s' = potential s"
      by (subst potential_idle, simp, simp add: potential_def qw)
    then have "mu ?s' < mu s" by (simp add: mu_def ph)
    moreover have "unexplored ?s' = unexplored s" by (rule unexplored_cong) simp_all
    ultimately have sm: "smaller ?s' s" by (simp add: smaller_def)
    from run have "status (state ?s') = Running" by simp
    then show ?thesis by (rule goodI[OF eq _ t sm])
  next
    case True
    define agentId where "agentId = order_at (order ?N) (depth c)"
    define mv where "mv = cfg_get_js (config ?N) agentId #
                          map Val (getNeighbors (graph s) (cfg_get_js (config ?N) agentId))"
    define news where "news = map (\<lambda>(k, vertex).
                           LLNode (llNodeIdCounter s + k) (default_null agentId)
                             (default_null vertex) [] (depth c + 1) False False)
                         (List.enumerate 0 mv)"
    define refs where "refs = map (\<lambda>k. (fst C, snd C @ [length (children c) + k])) [0..<length mv]"
    define q where "q = queues s ! tree ?N"
    define s' where "s' = (let s1 = update_node s C (add_children news);
                               s2 = s1\<lparr>queues := (queues s1)[tree ?N := q @ refs],
                                       llNodeIdCounter := llNodeIdCounter s + length mv\<rparr>
                           in s2\<lparr>state := (state s2)\<lparr>phase := Generate\<rparr>\<rparr>)"
    have gq: "get_queue s (tree ?N) = Some q" using tq by (simp add: get_queue_def q_def)
    have eq: "stepExpandTree s = Inr (True, s')"
      unfolding stepExpandTree_def s'_def refs_def news_def mv_def agentId_def
      using C c True cur gq by (simp add: Let_def)
    have si: "search_inv s'" by (rule stepExpandTree_inv[OF D(1) ph eq])
    have fr: "graph s' = graph s" "agents s' = agents s"
      by (simp_all add: s'_def update_node_def Let_def)
    have stt: "open_nodes (state s') = open_nodes (state s)"
      "explored (state s') = explored (state s)"
      "currentHighLevelNode (state s') = Some ?N"
      "currentLowLevelNode (state s') = Some C"
      "phase (state s') = Generate" "status (state s') = status (state s)"
      by (simp_all add: s'_def update_node_def Let_def cur C)
    have tr: "trees s' = trees (update_node s C (add_children news))"
      by (simp add: s'_def update_node_def Let_def)
    have qs: "queues s' = (queues s)[tree ?N := q @ refs]"
      by (simp add: s'_def update_node_def Let_def)
    have lv: "live s' = live s" unfolding live_def stt cur by simp
    have rw: "ref_weight s' x = ref_weight s x \<and> deref s' x \<noteq> None" if "deref s x \<noteq> None" for x
    proof -
      from ref_weight_update_node[of "add_children news" s x C, OF add_children_keeps that]
      have "ref_weight (update_node s C (add_children news)) x = ref_weight s x \<and>
            deref (update_node s C (add_children news)) x \<noteq> None" .
      moreover have "ref_weight s' x = ref_weight (update_node s C (add_children news)) x"
        by (rule ref_weight_cong) (simp_all add: fr tr update_node_def)
      moreover have "deref s' x = deref (update_node s C (add_children news)) x"
        by (rule deref_trees_cong[OF tr])
      ultimately show ?thesis by simp
    qed
    have ln: "length news = length mv" by (simp add: news_def)
    have lm: "length mv \<le> ?b" unfolding mv_def using neighbors_le_branching by simp
    have dn: "depth (news ! k) = Suc (depth c)" if "k < length mv" for k
      using that by (simp add: news_def nth_enumerate_eq)
    have dref: "deref s' (fst C, snd C @ [length (children c) + k]) = Some (news ! k)"
      if "k < length mv" for k
    proof -
      from that ln have "k < length news" by simp
      from subtree_add_children[OF sub this] fC show ?thesis
        by (simp add: deref_def get_tree_def tr update_node_def)
    qed
    let ?W = "weight ?b (length (agents s) - Suc (depth c))"
    have rref: "ref_weight s' x = ?W \<and> deref s' x \<noteq> None" if "x \<in> set refs" for x
    proof -
      from that obtain k where k: "k < length mv" "x = (fst C, snd C @ [length (children c) + k])"
        by (auto simp: refs_def)
      from dref[OF k(1)] dn[OF k(1)] show ?thesis by (simp add: ref_weight_def k(2) fr)
    qed
    have qother: "queues s' ! tree n = queues s ! tree n" if "n \<in> live s" "n \<noteq> ?N" for n
      using live_tree_distinct[OF D(1) that(1) Nl that(2)] by (simp add: qs)
    have qN: "queues s' ! tree ?N = q @ refs" using tq by (simp add: qs)
    have t: "term_inv s'"
    proof (rule term_invI)
      show "search_inv s'" by (rule si)
      show "wf_agents (agents s')" using D(2) by (simp only: fr)
      show "distinct (open_nodes (state s'))" using D(3) by (simp only: stt)
      show "set (config n) \<subseteq> universe (graph s') (agents s')" if "n \<in> live s'" for n
        using D(4)[of n] that by (simp only: lv fr)
      show "deref s' x \<noteq> None" if "n \<in> live s'" "x \<in> set (queues s' ! tree n)" for n x
      proof -
        from that(1) have n: "n \<in> live s" by (simp only: lv)
        show ?thesis
        proof (cases "n = ?N")
          case True
          with that(2) qN have "x \<in> set q \<or> x \<in> set refs" by simp
          then show ?thesis
          proof
            assume "x \<in> set q"
            then have "x \<in> set (queues s ! tree ?N)" by (simp add: q_def)
            from rw[OF D(5)[OF Nl this]] show ?thesis by simp
          next
            assume "x \<in> set refs"
            from rref[OF this] show ?thesis by simp
          qed
        next
          case False
          with that(2) qother[OF n] have "x \<in> set (queues s ! tree n)" by simp
          from rw[OF D(5)[OF n this]] show ?thesis by simp
        qed
      qed
      show "phase (state s') \<noteq> Init" by (simp only: stt) simp
      show "open_nodes (state s') \<noteq> [] \<and>
            currentHighLevelNode (state s') = Some (last (open_nodes (state s')))"
        using one by (simp only: stt) simp
      show "queues s' ! tree (last (open_nodes (state s'))) \<noteq> []"
        if "phase (state s') = PopConstraint"
        using that by (simp only: stt) simp
      show "\<exists>C. currentLowLevelNode (state s') = Some C \<and> deref s' C \<noteq> None"
        using rw[of C] c by (simp only: stt) simp
      show "generatedConfig (state s') \<noteq> None" if "phase (state s') = Check"
        using that by (simp only: stt) simp
    qed
    have qw_other: "queue_weight s' n = queue_weight s n"
      if "n \<in> set (butlast (open_nodes (state s)))" for n
    proof -
      from that have nl: "n \<in> live s" by (auto simp: live_def dest: in_set_butlastD)
      from that notin have ne: "n \<noteq> ?N" by auto
      show ?thesis
        by (rule queue_weight_eq[OF qother[OF nl ne]]) (simp add: rw[OF D(5)[OF nl]])
    qed
    have sq: "sum_list (map (ref_weight s') q) = sum_list (map (ref_weight s) q)"
    proof (rule arg_cong[where f = sum_list], rule map_cong[OF refl])
      fix x assume "x \<in> set q"
      then have "x \<in> set (queues s ! tree ?N)" by (simp add: q_def)
      from rw[OF D(5)[OF Nl this]] show "ref_weight s' x = ref_weight s x" by simp
    qed
    have sr: "sum_list (map (ref_weight s') refs) = length mv * ?W"
      using sum_list_const[of refs "ref_weight s'" ?W] rref by (simp add: refs_def)
    have qw_N: "queue_weight s' ?N = queue_weight s ?N + length mv * ?W"
      unfolding queue_weight_def qN q_def[symmetric] by (simp add: sq sr)
    have inf: "inflight s = ?b * ?W" using True C c ph by (simp add: inflight_def)
    have p0: "potential s = sum_list (map (queue_weight s) (butlast (open_nodes (state s)))) +
                            queue_weight s ?N + ?b * ?W"
      unfolding potential_def inf by (subst op) simp
    have p1: "potential s' = sum_list (map (queue_weight s') (butlast (open_nodes (state s)))) +
                            queue_weight s' ?N"
      by (subst potential_idle, simp add: stt, simp only: stt, subst op, simp)
    have "sum_list (map (queue_weight s') (butlast (open_nodes (state s)))) =
          sum_list (map (queue_weight s) (butlast (open_nodes (state s))))"
      by (rule sum_queue_weight_eq) (rule qw_other)
    moreover have "length mv * ?W \<le> ?b * ?W" using lm by (rule mult_le_mono1)
    ultimately have "potential s' \<le> potential s" using p0 p1 qw_N by simp
    then have "mu s' < mu s" by (simp add: mu_def ph stt)
    moreover have "unexplored s' = unexplored s" by (rule unexplored_cong[OF fr stt(2)])
    ultimately have sm: "smaller s' s" by (simp add: smaller_def)
    from run stt(6) have "status (state s') = Running" by (simp only:)
    then show ?thesis by (rule goodI[OF eq _ t sm])
  qed
qed

lemma subtree_butlast: "subtree t p = Some c \<Longrightarrow> \<exists>c'. subtree t (butlast p) = Some c'"
proof (induction p arbitrary: t)
  case Nil
  then show ?case by simp
next
  case (Cons j p)
  show ?case
  proof (cases "p = []")
    case True
    then show ?thesis by simp
  next
    case False
    from Cons.prems have j: "j < length (children t)" and s: "subtree (children t ! j) p = Some c"
      by (auto split: if_splits)
    from Cons.IH[OF s] False j show ?thesis by simp
  qed
qed

lemma constraints_up_some:
  "subtree rt p \<noteq> None \<Longrightarrow> constraints_up rt p K \<noteq> None"
proof (induction rt p K rule: constraints_up.induct)
  case (1 rt p K)
  from "1.prems" obtain n where n: "subtree rt p = Some n" by auto
  show ?case
  proof (cases "who n = Null")
    case True
    with n show ?thesis by (subst constraints_up.simps) simp
  next
    case False
    show ?thesis
    proof (cases "p = []")
      case True
      with n False show ?thesis by (subst constraints_up.simps) simp
    next
      case pne: False
      from subtree_butlast[OF n] have "subtree rt (butlast p) \<noteq> None" by auto
      then have ih: "constraints_up rt (butlast p) (K(who n \<mapsto> wher n)) \<noteq> None"
        by (rule "1.IH"[OF n False pne])
      have e: "constraints_up rt p K = constraints_up rt (butlast p) (K(who n \<mapsto> wher n))"
        using n False pne by (subst constraints_up.simps) (simp del: constraints_up.simps)
      show ?thesis unfolding e by (rule ih)
    qed
  qed
qed

lemma stepGenerate_term:
  assumes ti: "term_inv s" and ph: "phase (state s) = Generate"
    and run: "status (state s) = Running"
  shows "\<exists>b s'. stepGenerate s = Inr (b, s') \<and> good s b s'"
proof -
  note D = term_invD[OF ti]
  from D(9) ph obtain C c where C: "currentLowLevelNode (state s) = Some C"
    and c: "deref s C = Some c" by auto
  from derefD[OF c] have fC: "fst C < length (trees s)"
    and sub: "subtree (trees s ! fst C) (snd C) = Some c" by simp_all
  from D(1) obtain N where cur: "currentHighLevelNode (state s) = Some N"
    unfolding search_inv_def by auto
  from constraints_up_some[of "trees s ! fst C" "snd C" Map.empty] sub fC
  obtain K where K: "getConstraints s C = Some K"
    by (auto simp: getConstraints_def get_tree_def)
  define g where "g = generateConfig (graph s) (agents s) (config N) K"
  define s' where "s' = s\<lparr>state := (state s)\<lparr>generatedConfig := g,
                            phase := (if g = None then Select else Check)\<rparr>\<rparr>"
  have eq: "stepGenerate s = Inr (True, s')"
    using C K cur by (cases g) (simp_all add: stepGenerate_def s'_def g_def)
  have si: "search_inv s'" by (rule stepGenerate_inv[OF D(1) ph D(2) eq])
  have lv: "live s' = live s" by (simp add: live_def s'_def)
  have t: "term_inv s'"
  proof (rule term_invI)
    show "search_inv s'" by (rule si)
    show "wf_agents (agents s')" using D(2) by (simp add: s'_def)
    show "distinct (open_nodes (state s'))" using D(3) by (simp add: s'_def)
    show "set (config n) \<subseteq> universe (graph s') (agents s')" if "n \<in> live s'" for n
      using D(4)[of n] that lv by (simp add: s'_def)
    show "deref s' x \<noteq> None" if "n \<in> live s'" "x \<in> set (queues s' ! tree n)" for n x
    proof -
      from that lv have a: "n \<in> live s" "x \<in> set (queues s ! tree n)" by (simp_all add: s'_def)
      have tr: "trees s' = trees s" by (simp add: s'_def)
      show ?thesis unfolding deref_trees_cong[OF tr] by (rule D(5)[OF a])
    qed
  qed (auto simp: s'_def split: if_splits)
  have qw: "queue_weight s' = queue_weight s"
    by (rule ext, rule queue_weight_cong) (simp_all add: s'_def)
  have "potential s' = potential s"
    by (subst potential_idle, simp add: s'_def, subst potential_idle, simp add: ph,
        simp add: qw, simp add: s'_def)
  then have "mu s' < mu s" by (simp add: mu_def ph s'_def)
  moreover have "unexplored s' = unexplored s" by (rule unexplored_cong) (simp_all add: s'_def)
  ultimately have sm: "smaller s' s" by (simp add: smaller_def)
  from run have "status (state s') = Running" by (simp add: s'_def)
  then show ?thesis by (rule goodI[OF eq _ t sm])
qed

lemma map_set_keys: "k \<notin> fst ` set m \<Longrightarrow> fst ` set (map_set m k v) = insert k (fst ` set m)"
  by (simp add: map_set_def)

lemma moves_universe: "v \<in> universe g ags \<Longrightarrow> moves g v \<subseteq> universe g ags"
  using neighbors_universe[of g v ags] by (simp add: moves_def)

lemma successor_universe:
  assumes wf: "wf_agents ags" and su: "successor g ags Q Q'"
    and Q: "length Q = length ags" "set Q \<subseteq> universe g ags"
  shows "set Q' \<subseteq> universe g ags \<and> length Q' = length ags"
proof -
  from successor_valid[OF wf su] have l: "length Q' = length ags"
    and mv: "\<And>a. a < length ags \<Longrightarrow> Q' ! a \<in> moves g (cfg_get Q a)"
    unfolding valid_successor_def by blast+
  have "x \<in> universe g ags" if "x \<in> set Q'" for x
  proof -
    from that l obtain a where a: "a < length ags" "x = Q' ! a" by (auto simp: in_set_conv_nth)
    from a(1) Q have "cfg_get Q a \<in> universe g ags" by (auto simp: cfg_get_def js_get_def)
    from moves_universe[OF this] mv[OF a(1)] a(2) show ?thesis by auto
  qed
  with l show ?thesis by auto
qed

lemma stepCheck_term:
  assumes ti: "term_inv s" and ph: "phase (state s) = Check"
    and run: "status (state s) = Running"
  shows "\<exists>b s'. stepCheck s = Inr (b, s') \<and> good s b s'"
proof -
  note D = term_invD[OF ti]
  from D(10)[OF ph] obtain Qnew where Q: "generatedConfig (state s) = Some Qnew" by auto
  from D(1) obtain N where cur: "currentHighLevelNode (state s) = Some N"
    unfolding search_inv_def by auto
  have Nl: "N \<in> live s" using cur by (simp add: live_def)
  show ?thesis
  proof (cases "hash Qnew \<in> fst ` set (explored (state s))")
    case True
    let ?s' = "s\<lparr>state := (state s)\<lparr>phase := Select\<rparr>\<rparr>"
    have eq: "stepCheck s = Inr (True, ?s')" using Q True by (simp add: stepCheck_def)
    have si: "search_inv ?s'" by (rule stepCheck_inv[OF D(1) ph D(2) eq])
    have lv: "live ?s' = live s" by (simp add: live_def)
    have t: "term_inv ?s'"
    proof (rule term_invI)
      show "search_inv ?s'" by (rule si)
      show "wf_agents (agents ?s')" using D(2) by simp
      show "distinct (open_nodes (state ?s'))" using D(3) by simp
      show "set (config n) \<subseteq> universe (graph ?s') (agents ?s')" if "n \<in> live ?s'" for n
        using D(4)[of n] that lv by auto
      show "deref ?s' x \<noteq> None" if "n \<in> live ?s'" "x \<in> set (queues ?s' ! tree n)" for n x
      proof -
        from that lv have "n \<in> live s" "x \<in> set (queues s ! tree n)" by auto
        from D(5)[OF this] show ?thesis by (simp add: deref_trees_cong[of ?s' s])
      qed
    qed simp_all
    have qw: "queue_weight ?s' = queue_weight s"
      by (rule ext, rule queue_weight_cong) simp_all
    have "potential ?s' = potential s"
      by (subst potential_idle, simp, subst potential_idle, simp add: ph, simp add: qw)
    then have "mu ?s' < mu s" by (simp add: mu_def ph)
    moreover have "unexplored ?s' = unexplored s" by (rule unexplored_cong) simp_all
    ultimately have sm: "smaller ?s' s" by (simp add: smaller_def)
    from run have "status (state ?s') = Running" by simp
    then show ?thesis by (rule goodI[OF eq _ t sm])
  next
    case False
    let ?Nnew = "HLNode (hlNodeIdCounter s) Qnew (length (queues s)) (Some (length (trees s)))
                   (getOrder (graph s) (agents s) Qnew) (Some N)"
    define s' where "s' = s\<lparr>state := (state s)
          \<lparr>open_nodes := open_nodes (state s) @ [?Nnew],
           explored := map_set (explored (state s)) (hash Qnew) ?Nnew,
           nodesGenerated := Suc (nodesGenerated (state s)),
           configurationsExplored := Suc (configurationsExplored (state s)),
           phase := Select\<rparr>,
         hlNodeIdCounter := Suc (hlNodeIdCounter s),
         llNodeIdCounter := Suc (llNodeIdCounter s),
         trees := trees s @ [new_root (llNodeIdCounter s)],
         queues := queues s @ [[(length (trees s), [])]]\<rparr>"
    have eq: "stepCheck s = Inr (True, s')"
      using Q False cur by (simp add: stepCheck_def s'_def Let_def)
    have si: "search_inv s'" by (rule stepCheck_inv[OF D(1) ph D(2) eq])
    have fr: "graph s' = graph s" "agents s' = agents s" by (simp_all add: s'_def)
    have ts: "trees s' = trees s @ [new_root (llNodeIdCounter s)]" by (simp add: s'_def)
    have qs: "queues s' = queues s @ [[(length (trees s), [])]]" by (simp add: s'_def)
    have op: "open_nodes (state s') = open_nodes (state s) @ [?Nnew]" by (simp add: s'_def)
    have ex: "explored (state s') = map_set (explored (state s)) (hash Qnew) ?Nnew"
      by (simp add: s'_def)
    have php: "phase (state s') = Select" by (simp add: s'_def)
    have stp: "status (state s') = status (state s)" by (simp add: s'_def)
    have cu: "currentHighLevelNode (state s') = Some N" by (simp add: s'_def cur)
    have lv: "live s' = insert ?Nnew (live s)" unfolding live_def op cu cur by auto
    from D(1) cur ph Q have su: "successor (graph s) (agents s) (config N) Qnew"
      unfolding search_inv_def phase_ok_def by simp
    from D(1) Nl have "cfg_ok (length (agents s)) (config N)"
      unfolding search_inv_def node_inv_def by blast
    then have lN: "length (config N) = length (agents s)" by (simp add: cfg_ok_def)
    from successor_universe[OF D(2) su lN D(4)[OF Nl]]
    have Qu: "set Qnew \<subseteq> universe (graph s) (agents s)" and Ql: "length Qnew = length (agents s)"
      by simp_all
    have pre: "prefix (trees s) (trees s')" by (simp add: ts)
    have qold: "queues s' ! tree n = queues s ! tree n" if "n \<in> live s" for n
      using live_tree_bound[OF D(1) that] by (simp add: qs nth_append)
    have t: "term_inv s'"
    proof (rule term_invI)
      show "search_inv s'" by (rule si)
      show "wf_agents (agents s')" using D(2) by (simp only: fr)
      show "distinct (open_nodes (state s'))"
      proof -
        have "?Nnew \<notin> set (open_nodes (state s))"
        proof
          assume "?Nnew \<in> set (open_nodes (state s))"
          then have "?Nnew \<in> live s" by (simp add: live_def)
          from live_tree_bound[OF D(1) this] show False by simp
        qed
        with D(3) show ?thesis by (simp add: op)
      qed
      show "set (config n) \<subseteq> universe (graph s') (agents s')" if "n \<in> live s'" for n
      proof (cases "n = ?Nnew")
        case True
        with Qu show ?thesis by (simp add: fr)
      next
        case False
        with that lv have "n \<in> live s" by simp
        from D(4)[OF this] show ?thesis by (simp only: fr)
      qed
      show "deref s' x \<noteq> None" if "n \<in> live s'" "x \<in> set (queues s' ! tree n)" for n x
      proof (cases "n = ?Nnew")
        case True
        with that(2) have "x = (length (trees s), [])" by (simp add: qs)
        then show ?thesis by (simp add: deref_def get_tree_def ts)
      next
        case False
        with that lv have n: "n \<in> live s" by simp
        with that(2) qold[OF n] have "x \<in> set (queues s ! tree n)" by simp
        from D(5)[OF n this] obtain c where "deref s x = Some c" by auto
        from deref_prefix[OF pre this] show ?thesis by simp
      qed
    qed (simp_all add: php)
    have h: "hash Qnew \<in> hashes (graph s) (agents s)"
      unfolding hashes_def using Qu Ql by blast
    have k: "fst ` set (explored (state s')) = insert (hash Qnew) (fst ` set (explored (state s)))"
      unfolding ex by (rule map_set_keys[OF False])
    have "hashes (graph s) (agents s) - insert (hash Qnew) (fst ` set (explored (state s))) =
          (hashes (graph s) (agents s) - fst ` set (explored (state s))) - {hash Qnew}"
      by auto
    moreover have "card ((hashes (graph s) (agents s) - fst ` set (explored (state s))) - {hash Qnew}) <
                   card (hashes (graph s) (agents s) - fst ` set (explored (state s)))"
      by (rule card_Diff1_less) (use h False finite_hashes in auto)
    ultimately have "unexplored s' < unexplored s"
      unfolding unexplored_def fr k by simp
    then have sm: "smaller s' s" by (simp add: smaller_def)
    from run stp have "status (state s') = Running" by (simp only:)
    then show ?thesis by (rule goodI[OF eq _ t sm])
  qed
qed

lemma run_phase_term:
  assumes ti: "term_inv s" and run: "status (state s) = Running"
  shows "\<exists>b s'. run_phase s = Inr (b, s') \<and> good s b s'"
proof (cases "phase (state s)")
  case Init
  with term_invD(6)[OF ti] show ?thesis by simp
next
  case Select
  with stepSelect_term[OF ti Select run] show ?thesis by (simp add: run_phase_def)
next
  case PopConstraint
  with stepPopConstraint_term[OF ti PopConstraint run] show ?thesis by (simp add: run_phase_def)
next
  case ExpandTree
  with stepExpandTree_term[OF ti ExpandTree run] show ?thesis by (simp add: run_phase_def)
next
  case Generate
  with stepGenerate_term[OF ti Generate run] show ?thesis by (simp add: run_phase_def)
next
  case Check
  with stepCheck_term[OF ti Check run] show ?thesis by (simp add: run_phase_def)
qed

lemma smaller_cong:
  "unexplored s1 = unexplored s \<Longrightarrow> mu s1 = mu s \<Longrightarrow> smaller s' s1 = smaller s' s"
  by (simp add: smaller_def)

lemma step_term:
  assumes ti: "term_inv s" and run: "status (state s) = Running"
  shows "\<exists>b s'. step s = Inr (b, s') \<and> good s b s'"
proof -
  let ?s1 = "saveHistory s"
  let ?s2 = "?s1\<lparr>state := (state ?s1)\<lparr>stepNumber := stepNumber (state ?s1) + 1\<rparr>\<rparr>"
  from term_inv_step_prepare[OF ti, of "stepNumber (state ?s1) + 1"]
  have t2: "term_inv ?s2" and m: "unexplored ?s2 = unexplored s" "mu ?s2 = mu s" by simp_all
  have r2: "status (state ?s2) = Running" using run saveHistory_frame[of s] by simp
  from run_phase_term[OF t2 r2] obtain b s' where
    rp: "run_phase ?s2 = Inr (b, s')" and g: "good ?s2 b s'" by blast
  from g have "good s b s'" unfolding good_def smaller_cong[OF m] .
  moreover from rp run have "step s = Inr (b, s')" by (simp add: step_def Let_def)
  ultimately show ?thesis by blast
qed

lemma steps_front:
  "step s = Inr (b, s1) \<Longrightarrow> steps (Suc (Suc k)) s = steps (Suc k) s1"
  by (induction k) simp_all

lemma terminates_from:
  assumes "term_inv s" "status (state s) = Running"
  shows "\<exists>k s'. steps (Suc k) s = Some (False, s') \<and> status (state s') \<noteq> Running"
proof -
  have "wf (inv_image (less_than <*lex*> less_than) (\<lambda>s. (unexplored s, mu s)))"
    by (intro wf_inv_image wf_lex_prod wf_less_than)
  from this assms show ?thesis
  proof (induction s rule: wf_induct_rule)
    case (less s)
    from step_term[OF less.prems] obtain b s1 where st: "step s = Inr (b, s1)"
      and g: "good s b s1" by blast
    show ?case
    proof (cases b)
      case False
      with g have "status (state s1) \<noteq> Running" by (simp add: good_def)
      moreover from st False have "steps (Suc 0) s = Some (False, s1)" by simp
      ultimately show ?thesis by blast
    next
      case True
      with g have r: "status (state s1) = Running" and t: "term_inv s1" and sm: "smaller s1 s"
        by (simp_all add: good_def)
      from sm have "(s1, s) \<in> inv_image (less_than <*lex*> less_than) (\<lambda>s. (unexplored s, mu s))"
        by (auto simp: smaller_def)
      from less.IH[OF this t r] obtain k s' where
        k: "steps (Suc k) s1 = Some (False, s')" "status (state s') \<noteq> Running" by blast
      from steps_front[OF st, of k] k(1) have "steps (Suc (Suc k)) s = Some (False, s')"
        by (simp only:)
      with k(2) show ?thesis by blast
    qed
  qed
qed

lemma initialize_term:
  assumes "wf_instance (agents s0)"
  shows "term_inv (initialize s0)"
proof -
  let ?s = "initialize s0"
  let ?N = "HLNode 0 (map start (agents s0)) 0 (Some 0) (getInitOrder (graph s0) (agents s0)) None"
  from assms have wf: "wf_agents (agents s0)" by (simp add: wf_instance_def)
  have fr: "graph ?s = graph s0" "agents ?s = agents s0" using initialize_frame[of s0] by simp_all
  note st = initialize_state[of s0]
  have op: "open_nodes (state ?s) = [?N]" and cu: "currentHighLevelNode (state ?s) = Some ?N"
    and ph: "phase (state ?s) = Select"
    by (simp_all add: st)
  have lv: "live ?s = {?N}" unfolding live_def op cu by simp
  let ?base = "s0\<lparr>state :=
                \<lparr>open_nodes = [?N], explored = [(hash (map start (agents s0)), ?N)],
                 currentHighLevelNode = Some ?N,
                 currentLowLevelNode = None, generatedConfig = None, stepNumber = 0,
                 phase = Select, status = Running, solution = None, nodesGenerated = 1,
                 configurationsExplored = 1\<rparr>,
              history := [], hlNodeIdCounter := 1, llNodeIdCounter := 1,
              trees := [new_root 0], queues := [[(0, [])]]\<rparr>"
  have i: "?s = saveHistory ?base" by (simp add: initialize_def Let_def)
  from saveHistory_frame[of ?base] obtain ts qs where
    ts: "trees ?s = new_root 0 # ts" and qs: "queues ?s = [(0, [])] # qs"
    unfolding i[symmetric] by (auto simp: prefix_def)
  show ?thesis
  proof (rule term_invI)
    show "search_inv ?s" by (rule initialize_inv[OF assms])
    show "wf_agents (agents ?s)" using wf by (simp only: fr)
    show "distinct (open_nodes (state ?s))" by (simp add: op)
    show "set (config n) \<subseteq> universe (graph ?s) (agents ?s)" if "n \<in> live ?s" for n
      using that unfolding lv fr by (auto simp: universe_def)
    show "deref ?s x \<noteq> None" if "n \<in> live ?s" "x \<in> set (queues ?s ! tree n)" for n x
    proof -
      from that(1) have "n = ?N" by (simp add: lv)
      with that(2) have "x = (0, [])" by (simp add: qs)
      then show ?thesis by (simp add: deref_def get_tree_def ts)
    qed
  qed (simp_all add: ph)
qed

text \<open>
  Claim C3. Let the agent ids be dense and no start or goal be \<^verbatim>\<open>undefined\<close>. From the
  state that \<^verbatim>\<open>initialize()\<close> leaves, there is a number \<open>k\<close> of calls of \<^verbatim>\<open>step()\<close>, none
  of which throws, such that the last of them returns \<open>false\<close> and leaves the status
  \<^verbatim>\<open>solved\<close> or \<^verbatim>\<open>no_solution\<close>; a further call of \<^verbatim>\<open>step()\<close> returns \<open>false\<close> and
  changes nothing. (Each call in a running search makes the pair of the number of
  unexplored configuration hashes and the weight of the pending constraints
  smaller in the lexicographic order.)
\<close>

theorem search_terminates:
  assumes "wf_instance (agents s0)"
  shows "\<exists>k s. steps k (initialize s0) = Some (False, s) \<and>
               status (state s) \<in> {Solved, NoSolution} \<and> step s = Inr (False, s)"
proof -
  have r: "status (state (initialize s0)) = Running" by (simp add: initialize_state)
  from terminates_from[OF initialize_term[OF assms] r] obtain k s where
    k: "steps (Suc k) (initialize s0) = Some (False, s)" and t: "status (state s) \<noteq> Running"
    by blast
  from t have "status (state s) \<in> {Solved, NoSolution}" by (cases "status (state s)") simp_all
  moreover from t have "step s = Inr (False, s)" by (simp add: step_def)
  ultimately show ?thesis using k by blast
qed

theorem search_terminates_witness:
  "wf_instance agents_two \<and>
   (\<exists>k s. steps k (new_lacam g_line agents_two) = Some (False, s) \<and>
          status (state s) \<in> {Solved, NoSolution} \<and> step s = Inr (False, s))"
proof -
  let ?s0 = "\<lparr>graph = g_line, agents = agents_two,
        state = \<lparr>open_nodes = [], explored = [], currentHighLevelNode = None,
                 currentLowLevelNode = None, generatedConfig = None, stepNumber = 0,
                 phase = Init, status = Running, solution = None, nodesGenerated = 0,
                 configurationsExplored = 0\<rparr>,
        history = [], hlNodeIdCounter = 0, llNodeIdCounter = 0, trees = [], queues = []\<rparr>"
  have n: "new_lacam g_line agents_two = initialize ?s0" by (simp add: new_lacam_def)
  have h1: "wf_instance agents_two" by code_simp
  then have h1': "wf_instance (agents ?s0)" by simp
  from search_terminates[OF h1'] h1 show ?thesis unfolding n by (rule conjI[rotated])
qed

end
